theory Spec2Isabelle
  imports Main "HOL-Library.Multiset"
begin

section \<open>JavaScript values, strings and BigInt conversions\<close>

text \<open>
  The backend (\<^verbatim>\<open>src/backend/server.js\<close>) keeps every key component and every
  ciphertext as a decimal string and converts with \<^verbatim>\<open>BigInt(...)\<close> and
  \<^verbatim>\<open>.toString()\<close>. A JavaScript \<^verbatim>\<open>BigInt\<close> is an unbounded integer (\<open>int\<close>); a
  string is a list of characters, one \<open>char\<close> standing for one code unit.
\<close>

datatype js_error = TypeError | SyntaxError | RangeError

text \<open>
  A field of a JSON request body as the submit handler uses it: it only ever calls
  \<^verbatim>\<open>.substring\<close> on it and stores it, so what matters is whether it is a string.
  \<open>JOther\<close> stands for every other JSON value (number, boolean, null, array, object) and
  for a missing field: calling \<^verbatim>\<open>.substring(0, 50)\<close> on any of them throws a TypeError.
\<close>

datatype jsvalue = JString string | JOther

text \<open>\<^verbatim>\<open>BigInt.prototype.toString()\<close>: the decimal digits, with a leading minus sign.\<close>

fun nat_to_digits :: "nat \<Rightarrow> string" where
  "nat_to_digits k =
     (if k < 10 then [char_of (48 + k)]
      else nat_to_digits (k div 10) @ [char_of (48 + k mod 10)])"

declare nat_to_digits.simps [simp del]

definition toString :: "int \<Rightarrow> string" where
  "toString i = (if i < 0 then CHR ''-'' # nat_to_digits (nat (- i)) else nat_to_digits (nat i))"

text \<open>
  \<^verbatim>\<open>BigInt(string)\<close> (ECMAScript StringToBigInt): white space is trimmed; the empty
  string is \<open>0\<close>; a decimal literal may carry one sign; \<^verbatim>\<open>0x\<close>, \<^verbatim>\<open>0o\<close> and \<^verbatim>\<open>0b\<close> literals
  carry none; anything else throws a SyntaxError (\<open>None\<close> here). A \<open>char\<close> has 256 values,
  so of the white space characters only those below 256 occur: tab, line feed, vertical
  tab, form feed, carriage return, space and the no-break space.
\<close>

definition is_space :: "char \<Rightarrow> bool" where
  "is_space c = ((of_char c :: nat) \<in> {9, 10, 11, 12, 13, 32, 160})"

definition trim :: "string \<Rightarrow> string" where
  "trim s = rev (dropWhile is_space (rev (dropWhile is_space s)))"

definition digit_value :: "char \<Rightarrow> nat option" where
  "digit_value c =
     (let k = (of_char c :: nat) in
      if 48 \<le> k \<and> k \<le> 57 then Some (k - 48)
      else if 97 \<le> k \<and> k \<le> 102 then Some (k - 87)
      else if 65 \<le> k \<and> k \<le> 70 then Some (k - 55)
      else None)"

fun parse_digits_acc :: "nat \<Rightarrow> nat \<Rightarrow> string \<Rightarrow> nat option" where
  "parse_digits_acc base acc [] = Some acc"
| "parse_digits_acc base acc (c # cs) =
     (case digit_value c of
        None \<Rightarrow> None
      | Some d \<Rightarrow> if d < base then parse_digits_acc base (acc * base + d) cs else None)"

definition parse_digits :: "nat \<Rightarrow> string \<Rightarrow> nat option" where
  "parse_digits base s = (if s = [] then None else parse_digits_acc base 0 s)"

fun parse_literal :: "string \<Rightarrow> int option" where
  "parse_literal [] = Some 0"
| "parse_literal [c] = map_option int (parse_digits 10 [c])"
| "parse_literal (c # d # cs) =
     (if c = CHR ''0'' \<and> (d = CHR ''x'' \<or> d = CHR ''X'') then map_option int (parse_digits 16 cs)
      else if c = CHR ''0'' \<and> (d = CHR ''o'' \<or> d = CHR ''O'') then map_option int (parse_digits 8 cs)
      else if c = CHR ''0'' \<and> (d = CHR ''b'' \<or> d = CHR ''B'') then map_option int (parse_digits 2 cs)
      else if c = CHR ''-'' then map_option (\<lambda>k. - int k) (parse_digits 10 (d # cs))
      else if c = CHR ''+'' then map_option int (parse_digits 10 (d # cs))
      else map_option int (parse_digits 10 (c # d # cs)))"

definition BigInt :: "string \<Rightarrow> int option" where
  "BigInt s = parse_literal (trim s)"

text \<open>\<^verbatim>\<open>String.prototype.substring(0, 50) + '...'\<close>, as the handlers abbreviate a ciphertext.\<close>

definition abbreviate :: "string \<Rightarrow> string" where
  "abbreviate s = take 50 s @ ''...''"

section \<open>The Paillier cryptosystem of the \<^verbatim>\<open>paillier-bigint\<close> package\<close>

text \<open>
  \<^verbatim>\<open>paillier.PublicKey(n, g)\<close> and \<^verbatim>\<open>paillier.PrivateKey(lambda, mu, publicKey)\<close> of the
  \<^verbatim>\<open>paillier-bigint\<close> package, as the sources construct them. The fields are prefixed
  because \<open>n\<close>, \<open>g\<close> and \<open>mu\<close> are needed as variable names.
\<close>

record PublicKey =
  key_n :: int
  key_g :: int

record PrivateKey =
  key_lambda :: int
  key_mu :: int
  key_publicKey :: PublicKey

text \<open>
  Modelled from the spec: the primes that \<^verbatim>\<open>random_prime\<close> (section 4.1) returns. The
  package that draws them is not under \<^verbatim>\<open>src/\<close>; a draw is a parameter of key generation
  and \<open>is_prime\<close> says what it is.
\<close>

definition is_prime :: "int \<Rightarrow> bool" where
  "is_prime p = (1 < p \<and> (\<forall>d \<in> {2..<p}. \<not> d dvd p))"

text \<open>
  Modelled from the spec: \<^verbatim>\<open>mod_pow(base, exponent, modulus)\<close> of section 4.1, modular
  exponentiation by square-and-multiply, for a positive modulus. The specification gives
  no meaning to a negative exponent; the recursion stops there as for \<open>0\<close>.
\<close>

function mod_pow :: "int \<Rightarrow> int \<Rightarrow> int \<Rightarrow> int" where
  "mod_pow b e m =
     (if e \<le> 0 then 1 mod m
      else if e mod 2 = 0 then ((mod_pow b (e div 2) m)\<^sup>2) mod m
      else (b * (mod_pow b (e div 2) m)\<^sup>2) mod m)"
  by pat_completeness auto
termination
  by (relation "measure (\<lambda>(b, e, m). nat e)") auto

declare mod_pow.simps [simp del]

text \<open>
  Modelled from the spec: \<^verbatim>\<open>mod_inverse(a, modulus)\<close> of section 4.1, by the extended
  Euclidean algorithm; it fails with NotInvertibleError when the greatest common divisor
  is not \<open>1\<close>. \<open>egcd a b\<close> returns \<open>(d, x, y)\<close> with \<open>a * x + b * y = d\<close>.
\<close>

datatype crypto_error = NotInvertibleError | InternalInvariantError | DecryptionError

function egcd :: "int \<Rightarrow> int \<Rightarrow> int \<times> int \<times> int" where
  "egcd a b =
     (if b = 0 then (a, 1, 0)
      else (case egcd b (a mod b) of (d, x, y) \<Rightarrow> (d, y, x - (a div b) * y)))"
  by pat_completeness auto
termination
  by (relation "measure (\<lambda>(a, b). nat \<bar>b\<bar>)") (auto simp: abs_mod_less)

declare egcd.simps [simp del]

definition mod_inverse :: "int \<Rightarrow> int \<Rightarrow> crypto_error + int" where
  "mod_inverse a m =
     (case egcd (a mod m) m of
        (d, x, y) \<Rightarrow> if d = 1 then Inr (x mod m) else Inl NotInvertibleError)"

text \<open>
  Modelled from the spec: \<^verbatim>\<open>generate_key_pair\<close> of section 4.2, for the pair of primes
  the retry loop ends with. The draw is accepted when both are prime, they differ and
  \<open>gcd (p * q) ((p - 1) * (q - 1)) = 1\<close>. Then \<open>n = p * q\<close>, \<open>lambda = lcm (p - 1) (q - 1)\<close>,
  \<open>g = n + 1\<close> and \<open>mu\<close> is the inverse modulo \<open>n\<close> of \<open>L (g ^ lambda mod n\<^sup>2)\<close>, where
  \<open>L x = (x - 1) / n\<close>; a division that is not exact is the fatal internal-invariant error.
  The bit length of the draws is left open: what is proved holds for every accepted pair.
\<close>

definition L :: "int \<Rightarrow> int \<Rightarrow> int" where
  "L u n = (u - 1) div n"

definition accepted_primes :: "int \<Rightarrow> int \<Rightarrow> bool" where
  "accepted_primes p q =
     (is_prime p \<and> is_prime q \<and> p \<noteq> q \<and> gcd (p * q) ((p - 1) * (q - 1)) = 1)"

definition generate_key_pair :: "int \<Rightarrow> int \<Rightarrow> crypto_error + (PublicKey \<times> PrivateKey)" where
  "generate_key_pair p q =
     (let n = p * q; lam = lcm (p - 1) (q - 1); g = n + 1;
          u = mod_pow g lam (n * n)
      in if \<not> n dvd (u - 1) then Inl InternalInvariantError
         else (case mod_inverse (L u n) n of
                 Inl e \<Rightarrow> Inl e
               | Inr mu \<Rightarrow>
                   Inr (\<lparr>key_n = n, key_g = g\<rparr>,
                        \<lparr>key_lambda = lam, key_mu = mu,
                         key_publicKey = \<lparr>key_n = n, key_g = g\<rparr>\<rparr>)))"

text \<open>
  Modelled from the spec: \<^verbatim>\<open>encrypt(plaintext, public_key)\<close> of section 4.3, the
  \<^verbatim>\<open>PublicKey.encrypt\<close> of the package. The random \<open>r\<close> that the retry loop ends with
  (\<open>0 < r < n\<close> and \<open>gcd r n = 1\<close>) is a parameter.
\<close>

definition encrypt :: "PublicKey \<Rightarrow> int \<Rightarrow> int \<Rightarrow> int" where
  "encrypt pk m r =
     (mod_pow (key_g pk) m (key_n pk * key_n pk) * mod_pow r (key_n pk) (key_n pk * key_n pk))
       mod (key_n pk * key_n pk)"

definition fresh_randomness :: "PublicKey \<Rightarrow> int \<Rightarrow> bool" where
  "fresh_randomness pk r = (0 < r \<and> r < key_n pk \<and> gcd r (key_n pk) = 1)"

text \<open>
  Modelled from the spec: \<^verbatim>\<open>decrypt(ciphertext, private_key, public_key)\<close> of section
  4.3, the \<^verbatim>\<open>PrivateKey.decrypt\<close> of the package: \<open>(L (c ^ lambda mod n\<^sup>2) * mu) mod n\<close>. It
  fails with DecryptionError when the ciphertext is not an element of the ciphertext
  group: out of \<open>[0, n\<^sup>2)\<close>, or with a common divisor with \<open>n\<^sup>2\<close>.
\<close>

definition valid_ciphertext :: "PublicKey \<Rightarrow> int \<Rightarrow> bool" where
  "valid_ciphertext pk c =
     (0 \<le> c \<and> c < key_n pk * key_n pk \<and> gcd c (key_n pk * key_n pk) = 1)"

definition decrypt :: "int \<Rightarrow> PrivateKey \<Rightarrow> PublicKey \<Rightarrow> crypto_error + int" where
  "decrypt c sk pk =
     (if \<not> valid_ciphertext pk c then Inl DecryptionError
      else Inr ((L (mod_pow c (key_lambda sk) (key_n pk * key_n pk)) (key_n pk) * key_mu sk)
                  mod key_n pk))"

text \<open>
  Modelled from the spec: \<^verbatim>\<open>PublicKey.addition\<close> of the \<^verbatim>\<open>paillier-bigint\<close> package,
  which is not under \<^verbatim>\<open>src/\<close>. Section 4.4 of the specification: the aggregate is the
  product of the ciphertexts modulo \<open>n\<^sup>2\<close>, by iterative modular multiplication. A BigInt
  remainder by zero throws a RangeError in JavaScript, where HOL's \<open>mod\<close> would return
  its first argument.
\<close>

definition addition :: "PublicKey \<Rightarrow> int \<Rightarrow> int \<Rightarrow> js_error + int" where
  "addition pk a b =
     (if key_n pk * key_n pk = 0 then Inl RangeError
      else Inr ((a * b) mod (key_n pk * key_n pk)))"

section \<open>The backend: \<^verbatim>\<open>src/backend/server.js\<close>\<close>

text \<open>
  The two in-memory tables \<^verbatim>\<open>votingSessions\<close> and \<^verbatim>\<open>encryptedVotes\<close>, objects used as
  dictionaries: the maps are their own properties. A map is asked with the session id as
  a string, as JavaScript turns every property key into one. The names that every
  object inherits (such as \<^verbatim>\<open>constructor\<close>) are not keys of the maps; a request that names
  one changes neither table in the source either, but is answered there with another
  status than 404. Generated session ids start with \<^verbatim>\<open>session_\<close> and are never such a
  name. The strings of \<open>n\<close> and \<open>g\<close> are the fields \<open>pk_n\<close> and \<open>pk_g\<close>, those of \<open>lambda\<close> and
  \<open>mu\<close> are \<open>sk_lambda\<close> and \<open>sk_mu\<close>; a time is the clock reading as a number.
\<close>

record public_key_strings =
  pk_n :: string
  pk_g :: string

record private_key_strings =
  sk_lambda :: string
  sk_mu :: string

record session =
  publicKey :: public_key_strings
  createdAt :: nat
  voteCount :: nat

record vote =
  encryptedValue :: string
  timestamp :: nat

record server =
  votingSessions :: "string \<rightharpoonup> session"
  encryptedVotes :: "string \<rightharpoonup> vote list"

definition initial_server :: server where
  "initial_server = \<lparr>votingSessions = Map.empty, encryptedVotes = Map.empty\<rparr>"

text \<open>
  The responses. Every handler answers either with its success object or with a status
  code and an error message; \<open>InternalError\<close> is the \<^verbatim>\<open>catch\<close> branch (status 500) with the
  exception that reached it.
\<close>

datatype http_error = SessionNotFound | NoVotesToCompute | InternalError js_error

fun status_code :: "http_error \<Rightarrow> nat" where
  "status_code SessionNotFound = 404"
| "status_code NoVotesToCompute = 400"
| "status_code (InternalError e) = 500"

text \<open>The \<^verbatim>\<open>error\<close> field; in the catch branch it is the exception's own message, not modelled.\<close>

fun error_message :: "http_error \<Rightarrow> string option" where
  "error_message SessionNotFound = Some ''Session not found''"
| "error_message NoVotesToCompute = Some ''No votes to compute''"
| "error_message (InternalError e) = None"

record init_response =
  init_sessionId :: string
  init_publicKey :: public_key_strings
  init_privateKey :: private_key_strings

record compute_response =
  encryptedResult :: string
  compute_voteCount :: nat

record vote_snapshot =
  encrypted :: string
  snapshot_timestamp :: nat

record session_response =
  info_sessionId :: string
  info_voteCount :: nat
  info_createdAt :: nat
  info_publicKey :: public_key_strings
  info_votes :: "vote_snapshot list"

text \<open>
  \<^verbatim>\<open>generateSessionId()\<close>: the literal prefix and two random base-36 fragments, which are
  parameters here.
\<close>

definition generateSessionId :: "string \<Rightarrow> string \<Rightarrow> string" where
  "generateSessionId r1 r2 = ''session_'' @ r1 @ r2"

text \<open>
  \<^verbatim>\<open>POST /api/voting/init\<close>. The outcome of \<^verbatim>\<open>paillier.generateRandomKeys(2048)\<close> (a key
  pair, or an exception), the random fragments of the session id and the clock reading
  are parameters. The session record receives \<open>n\<close> and \<open>g\<close> only; the response carries
  both halves of the key pair.
\<close>

definition api_voting_init ::
  "server \<Rightarrow> js_error + (PublicKey \<times> PrivateKey) \<Rightarrow> string \<Rightarrow> string \<Rightarrow> nat
     \<Rightarrow> (http_error + init_response) \<times> server" where
  "api_voting_init st keys r1 r2 now =
     (case keys of
        Inl e \<Rightarrow> (Inl (InternalError e), st)
      | Inr (publicKey', privateKey') \<Rightarrow>
          let sessionId = generateSessionId r1 r2;
              pub = \<lparr>pk_n = toString (key_n publicKey'), pk_g = toString (key_g publicKey')\<rparr>;
              st' = st\<lparr>votingSessions := (votingSessions st)(sessionId \<mapsto>
                          \<lparr>publicKey = pub, createdAt = now, voteCount = 0\<rparr>),
                       encryptedVotes := (encryptedVotes st)(sessionId \<mapsto> [])\<rparr>
          in (Inr \<lparr>init_sessionId = sessionId, init_publicKey = pub,
                    init_privateKey = \<lparr>sk_lambda = toString (key_lambda privateKey'),
                                        sk_mu = toString (key_mu privateKey')\<rparr>\<rparr>, st'))"

text \<open>
  \<^verbatim>\<open>POST /api/voting/submit\<close>. The handler looks the session up, logs the first 50
  characters of the value (the only place where a value that is not a string fails),
  pushes the value with the clock reading and increments \<^verbatim>\<open>voteCount\<close>. It answers with
  the new count. Pushing onto a missing vote list would throw a TypeError.
\<close>

definition api_voting_submit ::
  "server \<Rightarrow> string \<Rightarrow> jsvalue \<Rightarrow> nat \<Rightarrow> (http_error + nat) \<times> server" where
  "api_voting_submit st sessionId encryptedVote now =
     (case votingSessions st sessionId of
        None \<Rightarrow> (Inl SessionNotFound, st)
      | Some sess \<Rightarrow>
          (case encryptedVote of
             JOther \<Rightarrow> (Inl (InternalError TypeError), st)
           | JString v \<Rightarrow>
               (case encryptedVotes st sessionId of
                  None \<Rightarrow> (Inl (InternalError TypeError), st)
                | Some votes \<Rightarrow>
                    let newCount = voteCount sess + 1;
                        st' = st\<lparr>encryptedVotes := (encryptedVotes st)(sessionId \<mapsto>
                                    votes @ [\<lparr>encryptedValue = v, timestamp = now\<rparr>]),
                                 votingSessions := (votingSessions st)(sessionId \<mapsto>
                                    sess\<lparr>voteCount := newCount\<rparr>)\<rparr>
                    in (Inr newCount, st'))))"

text \<open>
  The loop of \<^verbatim>\<open>POST /api/voting/compute\<close> from index 1 on: each stored string is
  converted with \<^verbatim>\<open>BigInt\<close> and multiplied into the running value with
  \<^verbatim>\<open>publicKey.addition\<close>.
\<close>

fun fold_votes :: "PublicKey \<Rightarrow> int \<Rightarrow> vote list \<Rightarrow> js_error + int" where
  "fold_votes pk encryptedSum [] = Inr encryptedSum"
| "fold_votes pk encryptedSum (v # vs) =
     (case BigInt (encryptedValue v) of
        None \<Rightarrow> Inl SyntaxError
      | Some c \<Rightarrow>
          (case addition pk encryptedSum c of
             Inl e \<Rightarrow> Inl e
           | Inr s \<Rightarrow> fold_votes pk s vs))"

text \<open>
  \<^verbatim>\<open>POST /api/voting/compute\<close>: 404 for an unknown session, 400 for an empty vote list;
  otherwise the public key is rebuilt from its strings, the running value starts as the
  first stored value (not reduced) and the loop folds the rest. The handler writes to
  neither table: the server is returned as it was received.
\<close>

definition api_voting_compute ::
  "server \<Rightarrow> string \<Rightarrow> (http_error + compute_response) \<times> server" where
  "api_voting_compute st sessionId =
     (case votingSessions st sessionId of
        None \<Rightarrow> (Inl SessionNotFound, st)
      | Some sess \<Rightarrow>
          (case encryptedVotes st sessionId of
             None \<Rightarrow> (Inl (InternalError TypeError), st)
           | Some votes \<Rightarrow>
               if length votes = 0 then (Inl NoVotesToCompute, st)
               else
                 (case (BigInt (pk_n (publicKey sess)), BigInt (pk_g (publicKey sess))) of
                    (Some n', Some g') \<Rightarrow>
                      (case BigInt (encryptedValue (hd votes)) of
                         None \<Rightarrow> (Inl (InternalError SyntaxError), st)
                       | Some c0 \<Rightarrow>
                           (case fold_votes \<lparr>key_n = n', key_g = g'\<rparr> c0 (tl votes) of
                              Inl e \<Rightarrow> (Inl (InternalError e), st)
                            | Inr encryptedSum \<Rightarrow>
                                (Inr \<lparr>encryptedResult = toString encryptedSum,
                                      compute_voteCount = length votes\<rparr>, st)))
                  | _ \<Rightarrow> (Inl (InternalError SyntaxError), st))))"

text \<open>
  \<^verbatim>\<open>GET /api/voting/session/:sessionId\<close>: the session's metadata and, for each stored
  vote, the abbreviated value and its timestamp.
\<close>

definition api_voting_session ::
  "server \<Rightarrow> string \<Rightarrow> (http_error + session_response) \<times> server" where
  "api_voting_session st sessionId =
     (case votingSessions st sessionId of
        None \<Rightarrow> (Inl SessionNotFound, st)
      | Some sess \<Rightarrow>
          (case encryptedVotes st sessionId of
             None \<Rightarrow> (Inl (InternalError TypeError), st)
           | Some votes \<Rightarrow>
               (Inr \<lparr>info_sessionId = sessionId,
                     info_voteCount = voteCount sess,
                     info_createdAt = createdAt sess,
                     info_publicKey = publicKey sess,
                     info_votes = map (\<lambda>v. \<lparr>encrypted = abbreviate (encryptedValue v),
                                              snapshot_timestamp = timestamp v\<rparr>) votes\<rparr>, st)))"

text \<open>The four requests, and the server after a sequence of them.\<close>

datatype request =
    Init "js_error + (PublicKey \<times> PrivateKey)" string string nat
  | Submit string jsvalue nat
  | Compute string
  | GetSession string

fun handle :: "server \<Rightarrow> request \<Rightarrow> server" where
  "handle st (Init keys r1 r2 now) = snd (api_voting_init st keys r1 r2 now)"
| "handle st (Submit sessionId encryptedVote now) = snd (api_voting_submit st sessionId encryptedVote now)"
| "handle st (Compute sessionId) = snd (api_voting_compute st sessionId)"
| "handle st (GetSession sessionId) = snd (api_voting_session st sessionId)"

definition run :: "request list \<Rightarrow> server" where
  "run reqs = foldl handle initial_server reqs"

section \<open>The client: \<^verbatim>\<open>SecureVotingClient\<close> of \<^verbatim>\<open>src/frontend/src/App.js\<close>\<close>

text \<open>
  The fields of the object, \<^verbatim>\<open>null\<close> until \<^verbatim>\<open>initializeSession\<close> sets them. A \<^verbatim>\<open>fetch\<close> is
  the call of the backend's handler; a response that is not \<^verbatim>\<open>ok\<close> is an error answer.
\<close>

record client =
  this_sessionId :: "string option"
  this_publicKey :: "public_key_strings option"
  this_privateKey :: "private_key_strings option"
  this_paillierPublicKey :: "PublicKey option"
  this_paillierPrivateKey :: "PrivateKey option"

definition new_client :: client where
  "new_client = \<lparr>this_sessionId = None, this_publicKey = None, this_privateKey = None,
                  this_paillierPublicKey = None, this_paillierPrivateKey = None\<rparr>"

datatype client_error =
    FailedToInitializeSession
  | SessionNotInitialized
  | VoteMustBe0Or1
  | FailedToSubmitVote
  | FailedToComputeResults
  | PrivateKeyNotAvailable
  | Thrown js_error
  | CryptoError crypto_error

text \<open>
  \<^verbatim>\<open>Number(bigint)\<close> is the nearest double. Every integer of magnitude up to \<open>2\<^sup>5\<^sup>3\<close> is a
  double, so the conversion is exact there; beyond, the model only records that the
  value may have been rounded.
\<close>

datatype js_number = Exactly int | Rounded

definition Number :: "int \<Rightarrow> js_number" where
  "Number x = (if \<bar>x\<bar> \<le> 2 ^ 53 then Exactly x else Rounded)"

text \<open>
  \<^verbatim>\<open>initializeSession()\<close>: posts to the init route, stores the session id and both key
  halves as received, then rebuilds the two key objects with \<^verbatim>\<open>BigInt\<close>.
\<close>

definition initializeSession ::
  "client \<Rightarrow> server \<Rightarrow> js_error + (PublicKey \<times> PrivateKey) \<Rightarrow> string \<Rightarrow> string \<Rightarrow> nat
     \<Rightarrow> (client_error + string) \<times> client \<times> server" where
  "initializeSession this srv keys r1 r2 now =
     (case api_voting_init srv keys r1 r2 now of
        (Inl e, srv') \<Rightarrow> (Inl FailedToInitializeSession, this, srv')
      | (Inr data, srv') \<Rightarrow>
          let this1 = this\<lparr>this_sessionId := Some (init_sessionId data),
                           this_publicKey := Some (init_publicKey data),
                           this_privateKey := Some (init_privateKey data)\<rparr>
          in (case (BigInt (pk_n (init_publicKey data)), BigInt (pk_g (init_publicKey data))) of
                (Some n', Some g') \<Rightarrow>
                  let this2 = this1\<lparr>this_paillierPublicKey := Some \<lparr>key_n = n', key_g = g'\<rparr>\<rparr>
                  in (case (BigInt (sk_lambda (init_privateKey data)),
                            BigInt (sk_mu (init_privateKey data))) of
                        (Some lam, Some mu) \<Rightarrow>
                          (Inr (init_sessionId data),
                           this2\<lparr>this_paillierPrivateKey :=
                                    Some \<lparr>key_lambda = lam, key_mu = mu,
                                          key_publicKey = \<lparr>key_n = n', key_g = g'\<rparr>\<rparr>\<rparr>,
                           srv')
                      | _ \<Rightarrow> (Inl (Thrown SyntaxError), this2, srv'))
              | _ \<Rightarrow> (Inl (Thrown SyntaxError), this1, srv')))"

text \<open>
  \<^verbatim>\<open>castVote(vote)\<close>: refuses a client without session and a vote other than \<open>0\<close> and \<open>1\<close>,
  encrypts with the public key (the randomness \<open>r\<close> of the library call is a parameter),
  posts the decimal string to the submit route and returns the new vote count with the
  abbreviated ciphertext.
\<close>

definition castVote ::
  "client \<Rightarrow> server \<Rightarrow> int \<Rightarrow> int \<Rightarrow> nat \<Rightarrow> (client_error + nat \<times> string) \<times> server" where
  "castVote this srv vote r now =
     (case (this_sessionId this, this_paillierPublicKey this) of
        (Some sessionId, Some pk) \<Rightarrow>
          if sessionId = [] then (Inl SessionNotInitialized, srv)
          else if vote \<noteq> 0 \<and> vote \<noteq> 1 then (Inl VoteMustBe0Or1, srv)
          else
            let encryptedVoteString = toString (encrypt pk vote r)
            in (case api_voting_submit srv sessionId (JString encryptedVoteString) now of
                  (Inl e, srv') \<Rightarrow> (Inl FailedToSubmitVote, srv')
                | (Inr newCount, srv') \<Rightarrow> (Inr (newCount, abbreviate encryptedVoteString), srv'))
      | _ \<Rightarrow> (Inl SessionNotInitialized, srv))"

text \<open>\<^verbatim>\<open>computeResults()\<close>: posts to the compute route and hands its answer on.\<close>

definition computeResults ::
  "client \<Rightarrow> server \<Rightarrow> (client_error + compute_response) \<times> server" where
  "computeResults this srv =
     (case this_sessionId this of
        None \<Rightarrow> (Inl SessionNotInitialized, srv)
      | Some sessionId \<Rightarrow>
          if sessionId = [] then (Inl SessionNotInitialized, srv)
          else (case api_voting_compute srv sessionId of
                  (Inl e, srv') \<Rightarrow> (Inl FailedToComputeResults, srv')
                | (Inr data, srv') \<Rightarrow> (Inr data, srv')))"

text \<open>
  \<^verbatim>\<open>decryptResults(encryptedResult)\<close>: converts the string with \<^verbatim>\<open>BigInt\<close>, decrypts with
  the private key object and returns \<^verbatim>\<open>Number(decryptedSum)\<close> as \<^verbatim>\<open>totalYesVotes\<close>.
\<close>

definition decryptResults :: "client \<Rightarrow> string \<Rightarrow> client_error + js_number" where
  "decryptResults this encryptedResult' =
     (case this_paillierPrivateKey this of
        None \<Rightarrow> Inl PrivateKeyNotAvailable
      | Some sk \<Rightarrow>
          (case BigInt encryptedResult' of
             None \<Rightarrow> Inl (Thrown SyntaxError)
           | Some c \<Rightarrow>
               (case decrypt c sk (key_publicKey sk) of
                  Inl e \<Rightarrow> Inl (CryptoError e)
                | Inr decryptedSum \<Rightarrow> Inr (Number decryptedSum))))"

text \<open>
  A voting round as \<^verbatim>\<open>completeVotingExample\<close> runs it after the initialisation: the
  votes are cast one after the other (each with its randomness and clock reading), then
  the results are computed and decrypted. The first exception ends the round.
\<close>

fun castVotes :: "client \<Rightarrow> server \<Rightarrow> (int \<times> int \<times> nat) list \<Rightarrow> client_error + server" where
  "castVotes this srv [] = Inr srv"
| "castVotes this srv ((vote, r, now) # rest) =
     (case castVote this srv vote r now of
        (Inl e, srv') \<Rightarrow> Inl e
      | (Inr res, srv') \<Rightarrow> castVotes this srv' rest)"

definition voting_round :: "client \<Rightarrow> server \<Rightarrow> (int \<times> int \<times> nat) list \<Rightarrow> client_error + js_number" where
  "voting_round this srv ballots =
     (case castVotes this srv ballots of
        Inl e \<Rightarrow> Inl e
      | Inr srv' \<Rightarrow>
          (case computeResults this srv' of
             (Inl e, srv'') \<Rightarrow> Inl e
           | (Inr computeResult, srv'') \<Rightarrow> decryptResults this (encryptedResult computeResult)))"

section \<open>Devices for stating the properties\<close>

text \<open>
  \<open>forget_private\<close> erases the private half of the key pair an init request carries;
  \<open>written_by r sid sess\<close> says that \<open>sess\<close> carries exactly what the init request \<open>r\<close>
  writes under the session id \<open>sid\<close>: the two public-key strings and the creation time
  (the vote counter is left free). \<open>toy_keys\<close> is the key pair of the primes 3 and 5,
  used for concrete runs.
\<close>

fun forget_private :: "request \<Rightarrow> request" where
  "forget_private (Init (Inr (pub, priv)) r1 r2 now) =
     Init (Inr (pub, \<lparr>key_lambda = 0, key_mu = 0, key_publicKey = pub\<rparr>)) r1 r2 now"
| "forget_private r = r"

fun written_by :: "request \<Rightarrow> string \<Rightarrow> session \<Rightarrow> bool" where
  "written_by (Init (Inr (pub, priv)) r1 r2 now) sid sess =
     (sid = generateSessionId r1 r2 \<and>
      publicKey sess = \<lparr>pk_n = toString (key_n pub), pk_g = toString (key_g pub)\<rparr> \<and>
      createdAt sess = now)"
| "written_by r sid sess = False"

definition toy_keys :: "PublicKey \<times> PrivateKey" where
  "toy_keys = (\<lparr>key_n = 15, key_g = 16\<rparr>,
               \<lparr>key_lambda = 4, key_mu = 4, key_publicKey = \<lparr>key_n = 15, key_g = 16\<rparr>\<rparr>)"

text \<open>
  \<open>decimal_digit\<close> recognises the characters \<^verbatim>\<open>0\<close> to \<^verbatim>\<open>9\<close>. \<open>ballot_vote pk (m, r, t)\<close> is the
  entry that the submit handler stores when \<^verbatim>\<open>castVote\<close> sends the vote \<open>m\<close>, encrypted
  with the randomness \<open>r\<close>, at the time \<open>t\<close>.
\<close>

definition decimal_digit :: "char \<Rightarrow> bool" where
  "decimal_digit c = (48 \<le> (of_char c :: nat) \<and> (of_char c :: nat) \<le> 57)"

definition ballot_vote :: "PublicKey \<Rightarrow> int \<times> int \<times> nat \<Rightarrow> vote" where
  "ballot_vote pk b = (case b of (m, r, t) \<Rightarrow> \<lparr>encryptedValue = toString (encrypt pk m r), timestamp = t\<rparr>)"


section \<open>\<^verbatim>\<open>BigInt\<close> reads back what \<^verbatim>\<open>toString\<close> prints\<close>

lemma of_char_digit: "d < 10 \<Longrightarrow> (of_char (char_of (48 + d :: nat)) :: nat) = 48 + d"
  by simp

lemma decimal_digit_char_of: "d < 10 \<Longrightarrow> decimal_digit (char_of (48 + d :: nat))"
  by (simp add: decimal_digit_def)

lemma digit_value_char_of: "d < 10 \<Longrightarrow> digit_value (char_of (48 + d :: nat)) = Some d"
  by (simp add: digit_value_def)

lemma decimal_digit_not_space: "decimal_digit c \<Longrightarrow> \<not> is_space c"
  by (auto simp: decimal_digit_def is_space_def)

lemma decimal_digit_not_letter:
  assumes "decimal_digit c"
  shows "c \<noteq> CHR ''x''" "c \<noteq> CHR ''X''" "c \<noteq> CHR ''o''" "c \<noteq> CHR ''O''"
    "c \<noteq> CHR ''b''" "c \<noteq> CHR ''B''" "c \<noteq> CHR ''-''" "c \<noteq> CHR ''+''"
  using assms by (auto simp: decimal_digit_def)

lemma nat_to_digits_digits: "c \<in> set (nat_to_digits k) \<Longrightarrow> decimal_digit c"
proof (induction k arbitrary: c rule: nat_to_digits.induct)
  case (1 k)
  show ?case
  proof (cases "k < 10")
    case True
    with 1(2) show ?thesis by (subst (asm) nat_to_digits.simps) (simp add: decimal_digit_char_of)
  next
    case False
    with 1(2) have "c \<in> set (nat_to_digits (k div 10)) \<or> c = char_of (48 + k mod 10)"
      by (subst (asm) nat_to_digits.simps) auto
    then show ?thesis
      using 1(1)[OF False] by (auto intro: decimal_digit_char_of)
  qed
qed

lemma nat_to_digits_nonempty: "nat_to_digits k \<noteq> []"
  by (subst nat_to_digits.simps) simp

lemma parse_digits_acc_append:
  "parse_digits_acc b acc (xs @ ys) =
     (case parse_digits_acc b acc xs of None \<Rightarrow> None | Some a \<Rightarrow> parse_digits_acc b a ys)"
  by (induction xs arbitrary: acc) (simp_all split: option.splits)

lemma parse_nat_to_digits: "parse_digits_acc 10 0 (nat_to_digits k) = Some k"
proof (induction k rule: nat_to_digits.induct)
  case (1 k)
  show ?case
  proof (cases "k < 10")
    case True
    then show ?thesis by (subst nat_to_digits.simps) (simp add: digit_value_char_of)
  next
    case False
    have "parse_digits_acc 10 0 (nat_to_digits k) =
          parse_digits_acc 10 0 (nat_to_digits (k div 10) @ [char_of (48 + k mod 10)])"
      using False by (subst nat_to_digits.simps) simp
    also have "\<dots> = Some ((k div 10) * 10 + k mod 10)"
      using 1[OF False] by (simp add: parse_digits_acc_append digit_value_char_of)
    finally show ?thesis by simp
  qed
qed

lemma parse_digits_nat_to_digits: "parse_digits 10 (nat_to_digits k) = Some k"
  by (simp add: parse_digits_def nat_to_digits_nonempty parse_nat_to_digits)

lemma trim_no_space:
  assumes "\<forall>c \<in> set s. \<not> is_space c"
  shows "trim s = s"
proof -
  have d: "dropWhile is_space xs = xs" if "\<forall>c \<in> set xs. \<not> is_space c" for xs
    using that by (cases xs) simp_all
  from assms show ?thesis by (simp add: trim_def d)
qed

lemma parse_literal_digits:
  assumes "s \<noteq> []" and "\<forall>c \<in> set s. decimal_digit c"
  shows "parse_literal s = map_option int (parse_digits 10 s)"
proof (cases s rule: parse_literal.cases)
  case 1
  with assms show ?thesis by simp
next
  case (2 c)
  then show ?thesis by simp
next
  case (3 c d cs)
  with assms(2) have "decimal_digit c" "decimal_digit d" by simp_all
  then show ?thesis
    unfolding 3 using decimal_digit_not_letter by simp
qed

lemma BigInt_toString: "BigInt (toString i) = Some i"
proof (cases "i < 0")
  case False
  let ?s = "nat_to_digits (nat i)"
  have "trim ?s = ?s"
    by (rule trim_no_space) (auto dest: nat_to_digits_digits decimal_digit_not_space)
  moreover have "parse_literal ?s = map_option int (parse_digits 10 ?s)"
    by (rule parse_literal_digits) (auto simp: nat_to_digits_nonempty dest: nat_to_digits_digits)
  ultimately show ?thesis
    using False by (simp add: BigInt_def toString_def parse_digits_nat_to_digits)
next
  case True
  let ?s = "nat_to_digits (nat (- i))"
  obtain d ds where s: "?s = d # ds" using nat_to_digits_nonempty[of "nat (- i)"] by (cases ?s) auto
  have sp: "\<not> is_space CHR ''-''" by (simp add: is_space_def)
  have "trim (CHR ''-'' # ?s) = CHR ''-'' # ?s"
    by (rule trim_no_space) (auto simp: sp dest: nat_to_digits_digits decimal_digit_not_space)
  moreover have "parse_literal (CHR ''-'' # ?s) = map_option (\<lambda>k. - int k) (parse_digits 10 ?s)"
    unfolding s by simp
  ultimately show ?thesis
    using True by (simp add: BigInt_def toString_def parse_digits_nat_to_digits)
qed

section \<open>Arithmetic behind the cryptosystem\<close>

subsection \<open>Fermat's little theorem for \<open>is_prime\<close>\<close>


lemma is_prime_coprime:
  assumes "is_prime p" and "\<not> p dvd a"
  shows "coprime p a"
proof -
  let ?d = "gcd p a"
  from assms(1) have p: "1 < p" by (simp add: is_prime_def)
  have d_dvd: "?d dvd p" by simp
  have d_nonneg: "0 \<le> ?d" by simp
  have "?d \<noteq> 0" using p by auto
  with d_nonneg have d_pos: "0 < ?d" by linarith
  have d_le: "?d \<le> p" using d_dvd p by (intro zdvd_imp_le) auto
  have "?d \<noteq> p" using assms(2) by (metis gcd_dvd2)
  with d_le have d_lt: "?d < p" by simp
  have "?d = 1"
  proof (rule ccontr)
    assume "?d \<noteq> 1"
    with d_pos have "2 \<le> ?d" by linarith
    with d_lt have "?d \<in> {2..<p}" by simp
    with assms(1) have "\<not> ?d dvd p" unfolding is_prime_def by blast
    with d_dvd show False by contradiction
  qed
  then show ?thesis by (simp add: coprime_iff_gcd_eq_1)
qed

lemma is_prime_dvd_choose:
  assumes "is_prime p" and "0 < k" and "k < nat p"
  shows "p dvd int (nat p choose k)"
proof -
  from assms(1) have p: "1 < p" by (simp add: is_prime_def)
  obtain k' where k: "k = Suc k'" using assms(2) by (cases k) auto
  obtain n' where n: "nat p = Suc n'" using p by (cases "nat p") auto
  have "Suc k' * (Suc n' choose Suc k') = Suc n' * (n' choose k')"
    by (rule Suc_times_binomial)
  then have "int k * int (nat p choose k) = int (nat p) * int (n' choose k')"
    unfolding k n by (metis of_nat_mult)
  then have "p dvd int k * int (nat p choose k)"
    using p by simp
  moreover have "\<not> p dvd int k"
    using assms(2,3) p by (auto dest!: zdvd_imp_le)
  then have "coprime p (int k)" by (rule is_prime_coprime[OF assms(1)])
  ultimately show ?thesis by (simp add: coprime_dvd_mult_right_iff)
qed

lemma fermat_step:
  assumes "is_prime p"
  shows "p dvd (a + 1) ^ nat p - (a ^ nat p + 1)"
proof -
  from assms have p: "1 < p" by (simp add: is_prime_def)
  then have "2 \<le> nat p" by simp
  then obtain m where "nat p = 2 + m" using le_iff_add by blast
  then have m: "nat p = Suc (Suc m)" by simp
  define f where "f k = of_nat (nat p choose k) * a ^ k" for k
  have "(a + 1) ^ nat p = (\<Sum>k\<le>nat p. f k)"
    by (simp add: binomial_ring f_def)
  also have "\<dots> = f 0 + (\<Sum>k\<in>{1..Suc m}. f k) + f (nat p)"
    unfolding m by (simp add: atMost_atLeast0 sum.atLeast_Suc_atMost)
  also have "f 0 = 1" by (simp add: f_def)
  also have "f (nat p) = a ^ nat p" by (simp add: f_def)
  finally have "(a + 1) ^ nat p - (a ^ nat p + 1) = (\<Sum>k\<in>{1..Suc m}. f k)" by simp
  moreover have "p dvd (\<Sum>k\<in>{1..Suc m}. f k)"
  proof (rule dvd_sum)
    fix k assume "k \<in> {1..Suc m}"
    then have "0 < k" "k < nat p" by (simp_all add: m)
    from is_prime_dvd_choose[OF assms this] show "p dvd f k"
      by (simp add: f_def)
  qed
  ultimately show ?thesis by simp
qed

lemma fermat_nat:
  assumes "is_prime p"
  shows "p dvd (int a) ^ nat p - int a"
proof (induction a)
  case 0
  from assms have "0 < nat p" by (simp add: is_prime_def)
  then show ?case by (simp add: power_0_left)
next
  case (Suc a)
  have "(int (Suc a)) ^ nat p - int (Suc a) =
        ((int a + 1) ^ nat p - ((int a) ^ nat p + 1)) + ((int a) ^ nat p - int a)"
    by (simp add: add.commute)
  with fermat_step[OF assms, of "int a"] Suc show ?case
    by (metis dvd_add)
qed

lemma fermat_int:
  assumes "is_prime p"
  shows "p dvd a ^ nat p - a"
proof -
  from assms have p: "0 < p" by (simp add: is_prime_def)
  define b where "b = nat (a mod p)"
  have b: "int b = a mod p" using p by (simp add: b_def)
  have "p dvd (a mod p) ^ nat p - a mod p"
    using fermat_nat[OF assms, of b] unfolding b .
  then have "((a mod p) ^ nat p) mod p = (a mod p) mod p"
    by (simp only: mod_eq_dvd_iff)
  then have "(a ^ nat p) mod p = a mod p"
    by (simp add: power_mod)
  then show ?thesis by (simp only: mod_eq_dvd_iff)
qed

lemma fermat_little:
  assumes "is_prime p" and "\<not> p dvd a"
  shows "a ^ (nat p - 1) mod p = 1"
proof -
  from assms have p: "1 < p" by (simp add: is_prime_def)
  then have "nat p = Suc (nat p - 1)" by simp
  then have "a ^ nat p - a = a * (a ^ (nat p - 1) - 1)"
    by (metis power_Suc right_diff_distrib mult.right_neutral)
  with fermat_int[OF assms(1), of a] have "p dvd a * (a ^ (nat p - 1) - 1)" by simp
  with is_prime_coprime[OF assms] have "p dvd a ^ (nat p - 1) - 1"
    by (simp add: coprime_dvd_mult_right_iff)
  then have "a ^ (nat p - 1) mod p = 1 mod p" by (simp add: mod_eq_dvd_iff)
  with p show ?thesis by simp
qed

subsection \<open>Modular exponentiation and inverse\<close>

lemma mod_pow_eq: "0 \<le> e \<Longrightarrow> mod_pow b e m = b ^ nat e mod m"
proof (induction b e m rule: mod_pow.induct)
  case (1 b e m)
  show ?case
  proof (cases "e \<le> 0")
    case True
    with 1(3) have "e = 0" by simp
    then show ?thesis by (simp add: mod_pow.simps)
  next
    case False
    then have pos: "0 < e" by simp
    then have half: "0 \<le> e div 2" by simp
    show ?thesis
    proof (cases "e mod 2 = 0")
      case True
      then have "e = 2 * (e div 2)" by presburger
      then have "nat e = nat (2 * (e div 2))" by simp
      then have e: "nat e = 2 * nat (e div 2)" by (simp add: nat_mult_distrib)
      have "mod_pow b e m = ((b ^ nat (e div 2) mod m)\<^sup>2) mod m"
        using 1(1)[OF False True half] False True by (subst mod_pow.simps) simp
      also have "\<dots> = (b ^ nat (e div 2))\<^sup>2 mod m" by (simp add: power_mod)
      also have "\<dots> = b ^ nat e mod m" by (simp add: e power_mult[symmetric] mult.commute)
      finally show ?thesis .
    next
      case odd: False
      then have "e = 2 * (e div 2) + 1" by presburger
      then have "nat e = nat (2 * (e div 2) + 1)" by simp
      then have e: "nat e = Suc (2 * nat (e div 2))"
        using half by (simp add: nat_add_distrib nat_mult_distrib)
      have "mod_pow b e m = (b * (b ^ nat (e div 2) mod m)\<^sup>2) mod m"
        using 1(2)[OF False odd half] False odd by (subst mod_pow.simps) simp
      also have "\<dots> = (b * ((b ^ nat (e div 2))\<^sup>2 mod m)) mod m"
        by (metis mod_mult_right_eq power_mod)
      also have "\<dots> = (b * (b ^ nat (e div 2))\<^sup>2) mod m" by (simp add: mod_mult_right_eq)
      also have "\<dots> = b ^ nat e mod m" by (simp add: e power_mult[symmetric] mult.commute)
      finally show ?thesis .
    qed
  qed
qed

lemma egcd_bezout: "egcd a b = (d, x, y) \<Longrightarrow> a * x + b * y = d"
proof (induction a b arbitrary: d x y rule: egcd.induct)
  case (1 a b)
  show ?case
  proof (cases "b = 0")
    case True
    with 1(2) show ?thesis by (simp add: egcd.simps[of a 0])
  next
    case False
    obtain d' x' y' where r: "egcd b (a mod b) = (d', x', y')" by (cases "egcd b (a mod b)") auto
    from 1(1)[OF False r] have ih: "b * x' + (a mod b) * y' = d'" .
    from 1(2) False r have d: "d = d'" and x: "x = y'" and y: "y = x' - (a div b) * y'"
      by (auto simp: egcd.simps[of a b])
    have "a * x + b * y = b * x' + (a - b * (a div b)) * y'"
      by (simp add: x y algebra_simps)
    also have "a - b * (a div b) = a mod b" by (simp add: minus_mult_div_eq_mod)
    finally show ?thesis using ih d by simp
  qed
qed

lemma egcd_gcd: "0 \<le> a \<Longrightarrow> 0 \<le> b \<Longrightarrow> fst (egcd a b) = gcd a b"
proof (induction a b rule: egcd.induct)
  case (1 a b)
  show ?case
  proof (cases "b = 0")
    case True
    with 1(2) show ?thesis by (simp add: egcd.simps[of a 0])
  next
    case False
    with 1(3) have "0 < b" by simp
    then have "0 \<le> a mod b" by simp
    from 1(1)[OF False 1(3) this] have ih: "fst (egcd b (a mod b)) = gcd b (a mod b)" .
    obtain d' x' y' where r: "egcd b (a mod b) = (d', x', y')" by (cases "egcd b (a mod b)") auto
    have "fst (egcd a b) = gcd b (a mod b)"
      using False ih by (simp add: egcd.simps[of a b] r)
    then show ?thesis by (simp add: gcd.commute gcd_red_int[symmetric])
  qed
qed

lemma mod_inverse_correct:
  assumes "0 < m" and "coprime a m"
  shows "\<exists>x. mod_inverse a m = Inr x \<and> (a * x) mod m = 1 mod m"
proof -
  obtain d x y where e: "egcd (a mod m) m = (d, x, y)" by (cases "egcd (a mod m) m") auto
  from assms(1) have "0 \<le> a mod m" by simp
  with egcd_gcd[of "a mod m" m] assms(1) e have "d = gcd (a mod m) m" by simp
  also have "\<dots> = gcd a m" by (metis gcd.commute gcd_red_int)
  finally have d: "d = 1" using assms(2) by simp
  from egcd_bezout[OF e] d have "(a mod m) * x + m * y = 1" by simp
  then have "((a mod m) * x + m * y) mod m = 1 mod m" by simp
  then have "((a mod m) * x) mod m = 1 mod m" by simp
  then have "(a * x) mod m = 1 mod m" by (simp add: mod_mult_left_eq)
  then have "(a * (x mod m)) mod m = 1 mod m" by (simp add: mod_mult_right_eq)
  moreover have "mod_inverse a m = Inr (x mod m)" by (simp add: mod_inverse_def e d)
  ultimately show ?thesis by blast
qed

lemma one_plus_multiple_power:
  fixes n k :: int
  shows "n * n dvd (1 + k * n) ^ j - (1 + int j * k * n)"
proof (induction j)
  case 0
  show ?case by simp
next
  case (Suc j)
  have "(1 + k * n) ^ Suc j - (1 + int (Suc j) * k * n) =
        (1 + k * n) * ((1 + k * n) ^ j - (1 + int j * k * n)) + (int j * k * k) * (n * n)"
    by (simp add: algebra_simps)
  with Suc show ?case by (metis dvd_add dvd_mult dvd_triv_right)
qed

lemma power_modulus_cong_one:
  fixes n x :: int
  assumes "0 \<le> n" and "n dvd x - 1"
  shows "n * n dvd x ^ nat n - 1"
proof -
  from assms(2) obtain k where "x - 1 = n * k" by (rule dvdE)
  then have x: "x = 1 + k * n" by (simp add: algebra_simps)
  have "n * n dvd (1 + k * n) ^ nat n - (1 + int (nat n) * k * n)"
    by (rule one_plus_multiple_power)
  moreover have "(1 + k * n) ^ nat n - 1 =
      ((1 + k * n) ^ nat n - (1 + int (nat n) * k * n)) + k * (n * n)"
    using assms(1) by (simp add: algebra_simps)
  ultimately show ?thesis unfolding x by (metis dvd_add dvd_triv_right)
qed

lemma L_of_one_plus_multiple:
  fixes n K :: int
  assumes "1 < n"
  shows "(1 + K * n) mod (n * n) = 1 + (K mod n) * n"
    and "((1 + K * n) mod (n * n) - 1) div n = K mod n"
proof -
  have lo: "0 \<le> K mod n" and hi: "K mod n < n" using assms by simp_all
  from hi have "K mod n \<le> n - 1" by simp
  then have "(K mod n) * n \<le> (n - 1) * n" using assms by (intro mult_right_mono) simp_all
  then have bound: "1 + (K mod n) * n < n * n" using assms by (simp add: algebra_simps)
  have nonneg: "0 \<le> 1 + (K mod n) * n" using lo assms by simp
  have "1 + K * n = (1 + (K mod n) * n) + (K div n) * (n * n)"
    by (simp add: algebra_simps flip: distrib_left)
  then have "(1 + K * n) mod (n * n) = (1 + (K mod n) * n) mod (n * n)"
    by (metis mod_mult_self1)
  also have "\<dots> = 1 + (K mod n) * n"
    using nonneg bound by (rule mod_pos_pos_trivial)
  finally show a: "(1 + K * n) mod (n * n) = 1 + (K mod n) * n" .
  show "((1 + K * n) mod (n * n) - 1) div n = K mod n"
    using assms by (simp add: a)
qed


lemma accepted_primes_facts:
  assumes "accepted_primes p q"
  shows "1 < p" "1 < q" "1 < p * q" "coprime p q" "coprime (lcm (p - 1) (q - 1)) (p * q)"
    "0 < lcm (p - 1) (q - 1)"
proof -
  from assms have pp: "is_prime p" and pq: "is_prime q" and ne: "p \<noteq> q"
    and g: "gcd (p * q) ((p - 1) * (q - 1)) = 1"
    by (simp_all add: accepted_primes_def)
  show p: "1 < p" and q: "1 < q" using pp pq by (simp_all add: is_prime_def)
  from p q show "1 < p * q" by (metis less_1_mult)
  have "\<not> p dvd q"
  proof
    assume d: "p dvd q"
    with q have "p \<le> q" by (intro zdvd_imp_le) simp_all
    with ne p have "p \<in> {2..<q}" by simp
    with pq have "\<not> p dvd q" unfolding is_prime_def by blast
    with d show False by contradiction
  qed
  with pp show "coprime p q" by (rule is_prime_coprime)
  have "lcm (p - 1) (q - 1) dvd (p - 1) * (q - 1)"
    by (rule lcm_least) simp_all
  moreover from g have "coprime ((p - 1) * (q - 1)) (p * q)"
    by (simp add: coprime_iff_gcd_eq_1 gcd.commute)
  ultimately show "coprime (lcm (p - 1) (q - 1)) (p * q)"
    by (metis coprime_divisors dvd_refl)
  have "lcm (p - 1) (q - 1) \<noteq> 0" using p q by (simp add: lcm_eq_0_iff)
  moreover have "0 \<le> lcm (p - 1) (q - 1)" by simp
  ultimately show "0 < lcm (p - 1) (q - 1)" by linarith
qed

lemma unit_power_lambda:
  assumes "accepted_primes p q" and "coprime r (p * q)"
  shows "p * q dvd r ^ nat (lcm (p - 1) (q - 1)) - 1"
proof -
  let ?lam = "lcm (p - 1) (q - 1)"
  from assms(1) have pp: "is_prime p" and pq: "is_prime q"
    by (simp_all add: accepted_primes_def)
  note f = accepted_primes_facts[OF assms(1)]
  have one: "s dvd r ^ nat ?lam - 1" if s: "is_prime s" and dvd: "s - 1 dvd ?lam" and co: "coprime r s" for s
  proof -
    from s have s1: "1 < s" by (simp add: is_prime_def)
    have "\<not> s dvd r"
    proof
      assume "s dvd r"
      with co have "is_unit s" by (metis coprime_common_divisor dvd_refl)
      with s1 show False by simp
    qed
    from fermat_little[OF s this] have fl: "r ^ (nat s - 1) mod s = 1" .
    from dvd obtain t where t: "?lam = (s - 1) * t" by (rule dvdE)
    with f(6) s1 have "0 < t" by (metis diff_gt_0_iff_gt zero_less_mult_pos)
    then have "nat ?lam = (nat s - 1) * nat t"
      using s1 t by (simp add: nat_mult_distrib nat_diff_distrib')
    then have "r ^ nat ?lam mod s = ((r ^ (nat s - 1)) mod s) ^ nat t mod s"
      by (simp add: power_mult power_mod)
    also have "\<dots> = 1 mod s" by (simp only: fl power_one)
    finally show ?thesis by (simp add: mod_eq_dvd_iff)
  qed
  from assms(2) have "coprime r p" "coprime r q" by simp_all
  then have "p dvd r ^ nat ?lam - 1" "q dvd r ^ nat ?lam - 1"
    using one[OF pp] one[OF pq] by simp_all
  with f(4) show ?thesis by (simp add: divides_mult)
qed


subsection \<open>Key generation, encryption and decryption\<close>

lemma generator_power:
  fixes n :: int
  shows "(n + 1) ^ j mod (n * n) = (1 + int j * n) mod (n * n)"
proof -
  have "n * n dvd (1 + 1 * n) ^ j - (1 + int j * 1 * n)"
    by (rule one_plus_multiple_power)
  then have "n * n dvd (n + 1) ^ j - (1 + int j * n)"
    by (simp add: add.commute)
  then show ?thesis by (simp only: mod_eq_dvd_iff)
qed

lemma generate_key_pair_succeeds:
  assumes "accepted_primes p q"
  shows "\<exists>mu. generate_key_pair p q =
            Inr (\<lparr>key_n = p * q, key_g = p * q + 1\<rparr>,
                 \<lparr>key_lambda = lcm (p - 1) (q - 1), key_mu = mu,
                  key_publicKey = \<lparr>key_n = p * q, key_g = p * q + 1\<rparr>\<rparr>) \<and>
            (lcm (p - 1) (q - 1) * mu) mod (p * q) = 1"
proof -
  define n where "n = p * q"
  define lam where "lam = lcm (p - 1) (q - 1)"
  define u where "u = mod_pow (n + 1) lam (n * n)"
  note f = accepted_primes_facts[OF assms, folded n_def lam_def]
  have n1: "1 < n" by (rule f(3))
  have lam0: "0 \<le> lam" using f(6) by simp
  have "u = (n + 1) ^ nat lam mod (n * n)"
    unfolding u_def using lam0 by (rule mod_pow_eq)
  also have "\<dots> = (1 + lam * n) mod (n * n)"
    using lam0 by (simp add: generator_power)
  finally have u: "u = (1 + lam * n) mod (n * n)" .
  have u': "u = 1 + (lam mod n) * n" and Lu: "L u n = lam mod n"
    unfolding u L_def using L_of_one_plus_multiple[OF n1, of lam] by simp_all
  have exact: "n dvd u - 1" by (simp add: u')
  have "coprime (lam mod n) n" using f(5) n1 by (simp add: coprime_mod_left_iff)
  from mod_inverse_correct[OF _ this] n1
  obtain mu where mu: "mod_inverse (lam mod n) n = Inr mu"
    and inv: "((lam mod n) * mu) mod n = 1 mod n" by auto
  from inv n1 have "(lam * mu) mod n = 1" by (simp add: mod_mult_left_eq)
  moreover have "generate_key_pair p q =
            Inr (\<lparr>key_n = n, key_g = n + 1\<rparr>,
                 \<lparr>key_lambda = lam, key_mu = mu, key_publicKey = \<lparr>key_n = n, key_g = n + 1\<rparr>\<rparr>)"
    using exact mu Lu
    by (simp add: generate_key_pair_def Let_def n_def[symmetric] lam_def[symmetric] u_def[symmetric])
  ultimately show ?thesis unfolding n_def lam_def by blast
qed

lemma decrypt_core:
  assumes acc: "accepted_primes p q"
    and n: "n = p * q" and lam: "lam = lcm (p - 1) (q - 1)"
    and mu: "(lam * mu) mod n = 1"
    and R: "coprime R n"
    and c: "c mod (n * n) = ((n + 1) ^ M * R ^ nat n) mod (n * n)"
  shows "(L (mod_pow c lam (n * n)) n * mu) mod n = int M mod n"
proof -
  note f = accepted_primes_facts[OF acc, folded n lam]
  have n1: "1 < n" by (rule f(3))
  have lam0: "0 \<le> lam" using f(6) by simp
  have "n dvd R ^ nat lam - 1"
    using unit_power_lambda[OF acc, of R] R unfolding n lam by simp
  with n1 have "n * n dvd (R ^ nat lam) ^ nat n - 1"
    by (intro power_modulus_cong_one) simp_all
  then have Rpow: "((R ^ nat lam) ^ nat n) mod (n * n) = 1 mod (n * n)"
    by (simp only: mod_eq_dvd_iff)
  have "mod_pow c lam (n * n) = c ^ nat lam mod (n * n)"
    using lam0 by (rule mod_pow_eq)
  also have "\<dots> = (c mod (n * n)) ^ nat lam mod (n * n)" by (simp add: power_mod)
  also have "\<dots> = ((n + 1) ^ M * R ^ nat n) ^ nat lam mod (n * n)"
    unfolding c by (simp add: power_mod)
  also have "((n + 1) ^ M * R ^ nat n) ^ nat lam = (n + 1) ^ (M * nat lam) * (R ^ nat lam) ^ nat n"
    by (simp add: power_mult_distrib power_mult[symmetric] mult.commute)
  also have "\<dots> mod (n * n) =
      (((n + 1) ^ (M * nat lam) mod (n * n)) * (((R ^ nat lam) ^ nat n) mod (n * n))) mod (n * n)"
    by (simp add: mod_mult_eq)
  also have "\<dots> = (1 + (int M * lam) * n) mod (n * n)"
    unfolding Rpow generator_power using lam0 n1 by (simp add: mod_mult_right_eq)
  finally have "mod_pow c lam (n * n) = (1 + (int M * lam) * n) mod (n * n)" .
  then have "L (mod_pow c lam (n * n)) n = (int M * lam) mod n"
    unfolding L_def using L_of_one_plus_multiple(2)[OF n1, of "int M * lam"] by simp
  then have "(L (mod_pow c lam (n * n)) n * mu) mod n = (int M * (lam * mu)) mod n"
    by (simp add: mod_mult_left_eq mult.assoc)
  also have "\<dots> = (int M * ((lam * mu) mod n)) mod n" by (simp add: mod_mult_right_eq)
  also have "\<dots> = int M mod n" by (simp add: mu)
  finally show ?thesis .
qed

lemma encrypt_eq:
  assumes "0 \<le> m" and "0 \<le> key_n pk"
  shows "encrypt pk m r =
           (key_g pk ^ nat m * r ^ nat (key_n pk)) mod (key_n pk * key_n pk)"
  using assms by (simp add: encrypt_def mod_pow_eq mod_mult_eq)

lemma unit_form_valid:
  fixes n :: int
  assumes "1 < n" and "coprime R n"
  shows "valid_ciphertext \<lparr>key_n = n, key_g = g\<rparr> (((n + 1) ^ M * R ^ nat n) mod (n * n))"
proof -
  from assms(1) have nn: "0 < n * n" by simp
  from assms(1) have nn0: "n * n \<noteq> 0" by simp
  have "coprime (n + 1) n" by (simp add: coprime_add_one_left)
  then have a: "coprime ((n + 1) ^ M) (n * n)" by simp
  from assms have b: "coprime (R ^ nat n) (n * n)" by simp
  from a b have "coprime ((n + 1) ^ M * R ^ nat n) (n * n)"
    by (simp only: coprime_mult_left_iff)
  then have "coprime (((n + 1) ^ M * R ^ nat n) mod (n * n)) (n * n)"
    by (simp only: coprime_mod_left_iff[OF nn0])
  then have "gcd (((n + 1) ^ M * R ^ nat n) mod (n * n)) (n * n) = 1"
    by (simp only: coprime_iff_gcd_eq_1)
  with nn show ?thesis by (simp add: valid_ciphertext_def)
qed

lemma decrypt_unit_form:
  assumes acc: "accepted_primes p q"
    and keys: "generate_key_pair p q = Inr (pub, priv)"
    and R: "coprime R (p * q)"
    and c: "c = ((p * q + 1) ^ M * R ^ nat (p * q)) mod ((p * q) * (p * q))"
  shows "decrypt c priv pub = Inr (int M mod (p * q))"
proof -
  from generate_key_pair_succeeds[OF acc] keys obtain mu
    where pub: "pub = \<lparr>key_n = p * q, key_g = p * q + 1\<rparr>"
      and priv: "priv = \<lparr>key_lambda = lcm (p - 1) (q - 1), key_mu = mu, key_publicKey = pub\<rparr>"
      and mu: "(lcm (p - 1) (q - 1) * mu) mod (p * q) = 1"
    by auto
  note f = accepted_primes_facts[OF acc]
  have valid: "valid_ciphertext pub c"
    unfolding pub c using f(3) R by (rule unit_form_valid)
  have "c mod ((p * q) * (p * q)) = ((p * q + 1) ^ M * R ^ nat (p * q)) mod ((p * q) * (p * q))"
    unfolding c by simp
  from decrypt_core[OF acc refl refl mu R this]
  have "(L (mod_pow c (lcm (p - 1) (q - 1)) (p * q * (p * q))) (p * q) * mu) mod (p * q) =
          int M mod (p * q)" .
  with valid show ?thesis by (simp add: decrypt_def pub priv)
qed

lemma decrypt_encrypt:
  assumes acc: "accepted_primes p q"
    and keys: "generate_key_pair p q = Inr (pub, priv)"
    and r: "fresh_randomness pub r"
    and m: "0 \<le> m"
  shows "decrypt (encrypt pub m r) priv pub = Inr (m mod (p * q))"
proof -
  from generate_key_pair_succeeds[OF acc] keys
  have pub: "pub = \<lparr>key_n = p * q, key_g = p * q + 1\<rparr>" by auto
  note f = accepted_primes_facts[OF acc]
  from r have R: "coprime r (p * q)" by (simp add: fresh_randomness_def pub coprime_iff_gcd_eq_1)
  have "encrypt pub m r = ((p * q + 1) ^ nat m * r ^ nat (p * q)) mod ((p * q) * (p * q))"
    using m f(3) by (simp add: encrypt_eq pub)
  from decrypt_unit_form[OF acc keys R this] m show ?thesis by simp
qed

section \<open>The handlers and the two tables\<close>

lemma compute_keeps_server: "snd (api_voting_compute st sid) = st"
  by (simp add: api_voting_compute_def split: option.splits sum.splits prod.splits)

lemma session_keeps_server: "snd (api_voting_session st sid) = st"
  by (simp add: api_voting_session_def split: option.splits)

lemma submit_string:
  assumes "votingSessions st sid = Some sess" and "encryptedVotes st sid = Some votes"
  shows "api_voting_submit st sid (JString v) now =
     (Inr (voteCount sess + 1),
      st\<lparr>encryptedVotes := (encryptedVotes st)(sid \<mapsto> votes @ [\<lparr>encryptedValue = v, timestamp = now\<rparr>]),
         votingSessions := (votingSessions st)(sid \<mapsto> sess\<lparr>voteCount := voteCount sess + 1\<rparr>)\<rparr>)"
  using assms by (simp add: api_voting_submit_def Let_def)

lemma run_snoc: "run (reqs @ [r]) = handle (run reqs) r"
  by (simp add: run_def)

subsection \<open>No private-key material in the session table\<close>

lemma handle_forget_private: "handle st (forget_private r) = handle st r"
  by (cases r rule: forget_private.cases) (simp_all add: api_voting_init_def Let_def)

lemma foldl_handle_forget_private:
  "foldl handle st (map forget_private reqs) = foldl handle st reqs"
  by (induction reqs arbitrary: st) (simp_all add: handle_forget_private)

lemma written_by_voteCount: "written_by r sid (s\<lparr>voteCount := k\<rparr>) = written_by r sid s"
  by (induction r sid s rule: written_by.induct) simp_all

lemma sessions_written_by_init:
  "votingSessions (run reqs) sid = Some sess \<Longrightarrow> \<exists>r \<in> set reqs. written_by r sid sess"
proof (induction reqs arbitrary: sid sess rule: rev_induct)
  case Nil
  then show ?case by (simp add: run_def initial_server_def)
next
  case (snoc r reqs)
  have old: "\<exists>r' \<in> set (reqs @ [r]). written_by r' sid sess"
    if "votingSessions (run reqs) sid = Some sess"
    using snoc.IH[OF that] by auto
  show ?case
  proof (cases r)
    case (Init keys r1 r2 now)
    show ?thesis
    proof (cases keys)
      case (Inl e)
      with snoc.prems Init show ?thesis
        by (intro old) (simp add: run_snoc api_voting_init_def)
    next
      case (Inr kp)
      obtain pub priv where kp: "kp = (pub, priv)" by (cases kp)
      show ?thesis
      proof (cases "sid = generateSessionId r1 r2")
        case True
        with snoc.prems Init Inr kp have "written_by r sid sess"
          by (auto simp: run_snoc api_voting_init_def Let_def)
        then show ?thesis by simp
      next
        case False
        with snoc.prems Init Inr kp show ?thesis
          by (intro old) (simp add: run_snoc api_voting_init_def Let_def)
      qed
    qed
  next
    case (Submit sid' v now)
    show ?thesis
    proof (cases "votingSessions (run (reqs @ [r])) = votingSessions (run reqs)")
      case True
      with snoc.prems show ?thesis by (intro old) simp
    next
      case False
      then obtain s0 where s0: "votingSessions (run reqs) sid' = Some s0"
        and upd: "votingSessions (run (reqs @ [r])) =
                    (votingSessions (run reqs))(sid' \<mapsto> s0\<lparr>voteCount := voteCount s0 + 1\<rparr>)"
        using Submit
        by (auto simp: run_snoc api_voting_submit_def Let_def split: option.splits jsvalue.splits)
      show ?thesis
      proof (cases "sid = sid'")
        case True
        with snoc.prems upd have sess: "sess = s0\<lparr>voteCount := voteCount s0 + 1\<rparr>" by simp
        from snoc.IH[OF s0] obtain r' where "r' \<in> set reqs" and "written_by r' sid' s0" by blast
        then have "written_by r' sid sess"
          using True sess by (simp add: written_by_voteCount)
        with \<open>r' \<in> set reqs\<close> show ?thesis by auto
      next
        case False
        with snoc.prems upd show ?thesis by (intro old) simp
      qed
    qed
  next
    case (Compute sid')
    with snoc.prems show ?thesis
      by (intro old) (simp add: run_snoc compute_keeps_server)
  next
    case (GetSession sid')
    with snoc.prems show ?thesis
      by (intro old) (simp add: run_snoc session_keeps_server)
  qed
qed

text \<open>
  C3: after any sequence of init, submit, compute and get-session requests, the server
  is the one reached when every init request had carried no private key at all, and every
  record of the session table holds what some init request of the sequence wrote from the
  public half: the strings of \<open>n\<close> and \<open>g\<close> and the creation time, next to the vote counter.
  Neither \<open>lambda\<close> nor \<open>mu\<close> reaches either table.
\<close>

theorem session_store_holds_no_private_key:
  "run (map forget_private reqs) = run reqs \<and>
   (\<forall>sid sess. votingSessions (run reqs) sid = Some sess \<longrightarrow>
      (\<exists>r \<in> set reqs. written_by r sid sess))"
  by (simp add: run_def foldl_handle_forget_private sessions_written_by_init[unfolded run_def])

theorem session_store_holds_no_private_key_witness:
  "run (map forget_private [Init (Inr toy_keys) ''ab'' ''cd'' 7, Submit ''session_abcd'' (JString ''16'') 8,
        Compute ''session_abcd'', GetSession ''session_abcd'']) =
   run [Init (Inr toy_keys) ''ab'' ''cd'' 7, Submit ''session_abcd'' (JString ''16'') 8,
        Compute ''session_abcd'', GetSession ''session_abcd''] \<and>
   votingSessions (run [Init (Inr toy_keys) ''ab'' ''cd'' 7, Submit ''session_abcd'' (JString ''16'') 8,
        Compute ''session_abcd'', GetSession ''session_abcd'']) ''session_abcd'' =
     Some \<lparr>publicKey = \<lparr>pk_n = ''15'', pk_g = ''16''\<rparr>, createdAt = 7, voteCount = 1\<rparr> \<and>
   written_by (Init (Inr toy_keys) ''ab'' ''cd'' 7) ''session_abcd''
     \<lparr>publicKey = \<lparr>pk_n = ''15'', pk_g = ''16''\<rparr>, createdAt = 7, voteCount = 1\<rparr>"
proof -
  let ?reqs = "[Init (Inr toy_keys) ''ab'' ''cd'' 7, Submit ''session_abcd'' (JString ''16'') 8,
        Compute ''session_abcd'', GetSession ''session_abcd'']"
  have s: "votingSessions (run ?reqs) ''session_abcd'' =
     Some \<lparr>publicKey = \<lparr>pk_n = ''15'', pk_g = ''16''\<rparr>, createdAt = 7, voteCount = 1\<rparr>"
    by code_simp
  have w: "written_by (Init (Inr toy_keys) ''ab'' ''cd'' 7) ''session_abcd''
     \<lparr>publicKey = \<lparr>pk_n = ''15'', pk_g = ''16''\<rparr>, createdAt = 7, voteCount = 1\<rparr>"
    by code_simp
  from session_store_holds_no_private_key[of ?reqs] s w show ?thesis by blast
qed

subsection \<open>Computing on a session without votes\<close>

text \<open>
  C7: on a session whose vote list is empty the compute handler answers with the error
  ``No votes to compute'' (status 400), the condition the specification calls
  EmptyTallyError. It is an error response: neither the catch branch (a crash turned
  into status 500) nor a success carrying an aggregate. The server is unchanged.
\<close>

theorem compute_empty_session_fails:
  assumes "votingSessions st sid = Some sess" and "encryptedVotes st sid = Some []"
  shows "api_voting_compute st sid = (Inl NoVotesToCompute, st) \<and>
         status_code NoVotesToCompute = 400 \<and>
         error_message NoVotesToCompute = Some ''No votes to compute''"
  using assms by (simp add: api_voting_compute_def)

theorem compute_empty_session_fails_witness:
  "votingSessions (run [Init (Inr toy_keys) ''ab'' ''cd'' 7]) ''session_abcd'' =
     Some \<lparr>publicKey = \<lparr>pk_n = ''15'', pk_g = ''16''\<rparr>, createdAt = 7, voteCount = 0\<rparr> \<and>
   encryptedVotes (run [Init (Inr toy_keys) ''ab'' ''cd'' 7]) ''session_abcd'' = Some [] \<and>
   api_voting_compute (run [Init (Inr toy_keys) ''ab'' ''cd'' 7]) ''session_abcd'' =
     (Inl NoVotesToCompute, run [Init (Inr toy_keys) ''ab'' ''cd'' 7])"
proof -
  let ?st = "run [Init (Inr toy_keys) ''ab'' ''cd'' 7]"
  have s: "votingSessions ?st ''session_abcd'' =
     Some \<lparr>publicKey = \<lparr>pk_n = ''15'', pk_g = ''16''\<rparr>, createdAt = 7, voteCount = 0\<rparr>"
    by code_simp
  have v: "encryptedVotes ?st ''session_abcd'' = Some []"
    by code_simp
  from compute_empty_session_fails[OF s v] s v show ?thesis by simp
qed

subsection \<open>Submitting after the results were computed\<close>

text \<open>
  C4 (as amended): the compute handler leaves the server as it was, so a session on which
  it has run is no different from one on which it has not. A later submission of a string
  to that session is accepted: it answers with the incremented vote count and the value is
  appended to the session's vote list. The backend has no session status and no
  SessionClosedError.
\<close>

theorem submit_after_compute_accepted:
  assumes "votingSessions st sid = Some sess" and "encryptedVotes st sid = Some votes"
  shows "snd (api_voting_compute st sid) = st \<and>
         fst (api_voting_submit (snd (api_voting_compute st sid)) sid (JString v) now) =
           Inr (voteCount sess + 1) \<and>
         encryptedVotes (snd (api_voting_submit (snd (api_voting_compute st sid)) sid (JString v) now)) sid =
           Some (votes @ [\<lparr>encryptedValue = v, timestamp = now\<rparr>])"
  using assms by (simp add: compute_keeps_server submit_string)

theorem submit_after_compute_accepted_witness:
  "votingSessions (run [Init (Inr toy_keys) ''ab'' ''cd'' 7, Submit ''session_abcd'' (JString ''16'') 8]) ''session_abcd'' =
     Some \<lparr>publicKey = \<lparr>pk_n = ''15'', pk_g = ''16''\<rparr>, createdAt = 7, voteCount = 1\<rparr> \<and>
   encryptedVotes (run [Init (Inr toy_keys) ''ab'' ''cd'' 7, Submit ''session_abcd'' (JString ''16'') 8]) ''session_abcd'' =
     Some [\<lparr>encryptedValue = ''16'', timestamp = 8\<rparr>] \<and>
   fst (api_voting_submit (snd (api_voting_compute
           (run [Init (Inr toy_keys) ''ab'' ''cd'' 7, Submit ''session_abcd'' (JString ''16'') 8]) ''session_abcd''))
           ''session_abcd'' (JString ''31'') 9) = Inr 2"
proof -
  let ?st = "run [Init (Inr toy_keys) ''ab'' ''cd'' 7, Submit ''session_abcd'' (JString ''16'') 8]"
  have s: "votingSessions ?st ''session_abcd'' =
     Some \<lparr>publicKey = \<lparr>pk_n = ''15'', pk_g = ''16''\<rparr>, createdAt = 7, voteCount = 1\<rparr>"
    by code_simp
  have v: "encryptedVotes ?st ''session_abcd'' = Some [\<lparr>encryptedValue = ''16'', timestamp = 8\<rparr>]"
    by code_simp
  from submit_after_compute_accepted[OF s v, of "''31''" 9] s v show ?thesis
    by (auto simp: numeral_2_eq_2)
qed

theorem submit_after_compute_counterexample:
  "fst (api_voting_compute
          (run [Init (Inr toy_keys) ''ab'' ''cd'' 7, Submit ''session_abcd'' (JString ''16'') 8])
          ''session_abcd'') = Inr \<lparr>encryptedResult = ''16'', compute_voteCount = 1\<rparr> \<and>
   fst (api_voting_submit
          (run [Init (Inr toy_keys) ''ab'' ''cd'' 7, Submit ''session_abcd'' (JString ''16'') 8,
                Compute ''session_abcd''])
          ''session_abcd'' (JString ''31'') 9) = Inr 2 \<and>
   encryptedVotes
     (run [Init (Inr toy_keys) ''ab'' ''cd'' 7, Submit ''session_abcd'' (JString ''16'') 8,
           Compute ''session_abcd'', Submit ''session_abcd'' (JString ''31'') 9])
     ''session_abcd'' =
   Some [\<lparr>encryptedValue = ''16'', timestamp = 8\<rparr>, \<lparr>encryptedValue = ''31'', timestamp = 9\<rparr>]"
  by code_simp

subsection \<open>What the submit handler accepts\<close>

text \<open>
  C5 (as amended): for an existing session the submit handler appends every string it
  receives, whatever it denotes; no comparison with \<open>n\<^sup>2\<close> is made and no
  InvalidCiphertextError exists. Only a value that is not a string fails (the catch
  branch, status 500), and then the server is unchanged.
\<close>

theorem submit_stores_any_string:
  assumes "votingSessions st sid = Some sess" and "encryptedVotes st sid = Some votes"
  shows "fst (api_voting_submit st sid (JString v) now) = Inr (voteCount sess + 1) \<and>
         encryptedVotes (snd (api_voting_submit st sid (JString v) now)) sid =
           Some (votes @ [\<lparr>encryptedValue = v, timestamp = now\<rparr>]) \<and>
         api_voting_submit st sid JOther now = (Inl (InternalError TypeError), st)"
  using assms by (simp add: submit_string) (simp add: api_voting_submit_def)

theorem submit_stores_any_string_witness:
  "votingSessions (run [Init (Inr toy_keys) ''ab'' ''cd'' 7]) ''session_abcd'' =
     Some \<lparr>publicKey = \<lparr>pk_n = ''15'', pk_g = ''16''\<rparr>, createdAt = 7, voteCount = 0\<rparr> \<and>
   encryptedVotes (run [Init (Inr toy_keys) ''ab'' ''cd'' 7]) ''session_abcd'' = Some [] \<and>
   encryptedVotes (snd (api_voting_submit (run [Init (Inr toy_keys) ''ab'' ''cd'' 7])
       ''session_abcd'' (JString ''not a number'') 8)) ''session_abcd'' =
     Some [\<lparr>encryptedValue = ''not a number'', timestamp = 8\<rparr>]"
proof -
  let ?st = "run [Init (Inr toy_keys) ''ab'' ''cd'' 7]"
  have s: "votingSessions ?st ''session_abcd'' =
     Some \<lparr>publicKey = \<lparr>pk_n = ''15'', pk_g = ''16''\<rparr>, createdAt = 7, voteCount = 0\<rparr>"
    by code_simp
  have v: "encryptedVotes ?st ''session_abcd'' = Some []"
    by code_simp
  from submit_stores_any_string[OF s v, of "''not a number''" 8] s v show ?thesis
    by auto
qed

theorem submit_range_check_counterexample:
  "BigInt (pk_n \<lparr>pk_n = ''15'', pk_g = ''16''\<rparr>) = Some 15 \<and>
   BigInt ''-1'' = Some (- 1) \<and> BigInt ''225'' = Some (15 * 15) \<and>
   fst (api_voting_submit (run [Init (Inr toy_keys) ''ab'' ''cd'' 7]) ''session_abcd'' (JString ''-1'') 8) = Inr 1 \<and>
   encryptedVotes
     (run [Init (Inr toy_keys) ''ab'' ''cd'' 7, Submit ''session_abcd'' (JString ''-1'') 8,
           Submit ''session_abcd'' (JString ''225'') 9])
     ''session_abcd'' =
   Some [\<lparr>encryptedValue = ''-1'', timestamp = 8\<rparr>, \<lparr>encryptedValue = ''225'', timestamp = 9\<rparr>]"
  by code_simp

subsection \<open>What the compute handler stores\<close>

text \<open>
  C6 (as amended): the compute handler, successful or not, returns the server exactly as
  it received it. The aggregate is part of the response only; the session record is the
  one from before (it has no field for an aggregate or a status), and computing again
  gives the same response.
\<close>

theorem compute_stores_nothing:
  "snd (api_voting_compute st sid) = st \<and>
   votingSessions (snd (api_voting_compute st sid)) sid = votingSessions st sid \<and>
   api_voting_compute (snd (api_voting_compute st sid)) sid = api_voting_compute st sid"
  by (simp add: compute_keeps_server)

theorem compute_stores_nothing_counterexample:
  "fst (api_voting_compute
          (run [Init (Inr toy_keys) ''ab'' ''cd'' 7, Submit ''session_abcd'' (JString ''16'') 8,
                Submit ''session_abcd'' (JString ''31'') 9])
          ''session_abcd'') = Inr \<lparr>encryptedResult = ''46'', compute_voteCount = 2\<rparr> \<and>
   votingSessions
     (run [Init (Inr toy_keys) ''ab'' ''cd'' 7, Submit ''session_abcd'' (JString ''16'') 8,
           Submit ''session_abcd'' (JString ''31'') 9, Compute ''session_abcd''])
     ''session_abcd'' =
   Some \<lparr>publicKey = \<lparr>pk_n = ''15'', pk_g = ''16''\<rparr>, createdAt = 7, voteCount = 2\<rparr> \<and>
   votingSessions
     (run [Init (Inr toy_keys) ''ab'' ''cd'' 7, Submit ''session_abcd'' (JString ''16'') 8,
           Submit ''session_abcd'' (JString ''31'') 9])
     ''session_abcd'' =
   Some \<lparr>publicKey = \<lparr>pk_n = ''15'', pk_g = ''16''\<rparr>, createdAt = 7, voteCount = 2\<rparr>"
  by code_simp

subsection \<open>The fold of the compute handler\<close>

lemma fold_votes_product:
  assumes "key_n pk \<noteq> 0" and "map (\<lambda>v. BigInt (encryptedValue v)) vs = map Some cs"
  shows "fold_votes pk acc vs =
           Inr (if cs = [] then acc else (acc * prod_list cs) mod (key_n pk * key_n pk))"
  using assms(2)
proof (induction vs arbitrary: acc cs)
  case Nil
  then show ?case by simp
next
  case (Cons v vs)
  from Cons.prems obtain c cs' where cs: "cs = c # cs'"
    by (cases cs) auto
  from Cons.prems have c: "BigInt (encryptedValue v) = Some c"
    and rest: "map (\<lambda>v. BigInt (encryptedValue v)) vs = map Some cs'"
    by (simp_all add: cs)
  show ?case
    using Cons.IH[OF rest, of "(acc * c) mod (key_n pk * key_n pk)"] assms(1) c
    by (simp add: cs addition_def mod_mult_left_eq mult.assoc)
qed

lemma compute_product:
  assumes sess: "votingSessions st sid = Some sess"
    and n: "BigInt (pk_n (publicKey sess)) = Some n"
    and g: "BigInt (pk_g (publicKey sess)) = Some g"
    and votes: "encryptedVotes st sid = Some votes"
    and cs: "map (\<lambda>v. BigInt (encryptedValue v)) votes = map Some cs"
    and range: "\<forall>c \<in> set cs. 0 \<le> c \<and> c < n * n"
    and ne: "cs \<noteq> []"
  shows "fst (api_voting_compute st sid) =
           Inr \<lparr>encryptedResult = toString (prod_list cs mod (n * n)), compute_voteCount = length cs\<rparr>"
proof -
  from ne obtain c0 cs' where c: "cs = c0 # cs'" by (cases cs) auto
  with cs obtain v0 vs' where v: "votes = v0 # vs'" by (cases votes) auto
  from cs c v have c0: "BigInt (encryptedValue v0) = Some c0"
    and rest: "map (\<lambda>v. BigInt (encryptedValue v)) vs' = map Some cs'" by simp_all
  have len: "length votes = length cs" using cs by (metis length_map)
  from range c have c0_range: "0 \<le> c0" "c0 < n * n" by simp_all
  then have c0_mod: "c0 mod (n * n) = c0" by simp
  from c0_range have n0: "n \<noteq> 0" by auto
  have "fold_votes \<lparr>key_n = n, key_g = g\<rparr> c0 vs' = Inr (prod_list cs mod (n * n))"
    using fold_votes_product[of "\<lparr>key_n = n, key_g = g\<rparr>" vs' cs' c0] n0 rest c0_mod
    by (simp add: c)
  then show ?thesis
    using sess n g votes c0 len ne by (simp add: api_voting_compute_def v)
qed

text \<open>
  C9: when every stored value of a session is the decimal string of a ciphertext in
  \<open>[0, n\<^sup>2)\<close>, the compute handler gives the same answer for a session (of the same public
  key) that stores the same ciphertexts in any other order; for a non-empty sequence the
  answer is the product of all of them modulo \<open>n\<^sup>2\<close>.
\<close>

theorem compute_fold_order_independent:
  assumes "votingSessions st sid = Some sess"
    and "BigInt (pk_n (publicKey sess)) = Some n"
    and "BigInt (pk_g (publicKey sess)) = Some g"
    and "encryptedVotes st sid = Some votes"
    and "map (\<lambda>v. BigInt (encryptedValue v)) votes = map Some cs"
    and "\<forall>c \<in> set cs. 0 \<le> c \<and> c < n * n"
    and "votingSessions st' sid = Some sess'"
    and "publicKey sess' = publicKey sess"
    and "encryptedVotes st' sid = Some votes'"
    and "map (\<lambda>v. BigInt (encryptedValue v)) votes' = map Some cs'"
    and "mset cs' = mset cs"
  shows "fst (api_voting_compute st' sid) = fst (api_voting_compute st sid) \<and>
         (cs \<noteq> [] \<longrightarrow>
            fst (api_voting_compute st sid) =
              Inr \<lparr>encryptedResult = toString (prod_list cs mod (n * n)),
                    compute_voteCount = length cs\<rparr>)"
proof (cases "cs = []")
  case True
  with \<open>mset cs' = mset cs\<close> have "cs' = []" by simp
  with True assms(5,10) have "votes = []" "votes' = []" by simp_all
  with assms(1,4,7,9) True show ?thesis by (simp add: api_voting_compute_def)
next
  case False
  from \<open>mset cs' = mset cs\<close> have set: "set cs' = set cs" and len: "length cs' = length cs"
    and prod: "prod_list cs' = prod_list cs"
    by (metis mset_eq_setD, metis size_mset, metis prod_mset_prod_list)
  from len False have ne: "cs' \<noteq> []" by auto
  have a: "fst (api_voting_compute st sid) =
           Inr \<lparr>encryptedResult = toString (prod_list cs mod (n * n)), compute_voteCount = length cs\<rparr>"
    using assms(1-6) False by (rule compute_product)
  have b: "fst (api_voting_compute st' sid) =
           Inr \<lparr>encryptedResult = toString (prod_list cs' mod (n * n)), compute_voteCount = length cs'\<rparr>"
    using assms(7) _ _ assms(9,10) _ ne
    by (rule compute_product) (simp_all add: assms set)
  from a b show ?thesis by (simp add: len prod)
qed

theorem compute_fold_order_independent_witness:
  "votingSessions (run [Init (Inr toy_keys) ''ab'' ''cd'' 7, Submit ''session_abcd'' (JString ''16'') 8,
      Submit ''session_abcd'' (JString ''31'') 9, Submit ''session_abcd'' (JString ''4'') 10]) ''session_abcd'' =
     Some \<lparr>publicKey = \<lparr>pk_n = ''15'', pk_g = ''16''\<rparr>, createdAt = 7, voteCount = 3\<rparr> \<and>
   encryptedVotes (run [Init (Inr toy_keys) ''ab'' ''cd'' 7, Submit ''session_abcd'' (JString ''16'') 8,
      Submit ''session_abcd'' (JString ''31'') 9, Submit ''session_abcd'' (JString ''4'') 10]) ''session_abcd'' =
     Some [\<lparr>encryptedValue = ''16'', timestamp = 8\<rparr>, \<lparr>encryptedValue = ''31'', timestamp = 9\<rparr>,
           \<lparr>encryptedValue = ''4'', timestamp = 10\<rparr>] \<and>
   encryptedVotes (run [Init (Inr toy_keys) ''ab'' ''cd'' 7, Submit ''session_abcd'' (JString ''4'') 8,
      Submit ''session_abcd'' (JString ''16'') 9, Submit ''session_abcd'' (JString ''31'') 10]) ''session_abcd'' =
     Some [\<lparr>encryptedValue = ''4'', timestamp = 8\<rparr>, \<lparr>encryptedValue = ''16'', timestamp = 9\<rparr>,
           \<lparr>encryptedValue = ''31'', timestamp = 10\<rparr>] \<and>
   mset [4, 16, 31 :: int] = mset [16, 31, 4] \<and>
   fst (api_voting_compute (run [Init (Inr toy_keys) ''ab'' ''cd'' 7, Submit ''session_abcd'' (JString ''16'') 8,
      Submit ''session_abcd'' (JString ''31'') 9, Submit ''session_abcd'' (JString ''4'') 10]) ''session_abcd'') =
     Inr \<lparr>encryptedResult = toString (prod_list [16, 31, 4] mod (15 * 15)), compute_voteCount = length [16, 31, 4 :: int]\<rparr> \<and>
   fst (api_voting_compute (run [Init (Inr toy_keys) ''ab'' ''cd'' 7, Submit ''session_abcd'' (JString ''4'') 8,
      Submit ''session_abcd'' (JString ''16'') 9, Submit ''session_abcd'' (JString ''31'') 10]) ''session_abcd'') =
   fst (api_voting_compute (run [Init (Inr toy_keys) ''ab'' ''cd'' 7, Submit ''session_abcd'' (JString ''16'') 8,
      Submit ''session_abcd'' (JString ''31'') 9, Submit ''session_abcd'' (JString ''4'') 10]) ''session_abcd'')"
proof -
  let ?st = "run [Init (Inr toy_keys) ''ab'' ''cd'' 7, Submit ''session_abcd'' (JString ''16'') 8,
      Submit ''session_abcd'' (JString ''31'') 9, Submit ''session_abcd'' (JString ''4'') 10]"
  let ?st' = "run [Init (Inr toy_keys) ''ab'' ''cd'' 7, Submit ''session_abcd'' (JString ''4'') 8,
      Submit ''session_abcd'' (JString ''16'') 9, Submit ''session_abcd'' (JString ''31'') 10]"
  let ?sess = "\<lparr>publicKey = \<lparr>pk_n = ''15'', pk_g = ''16''\<rparr>, createdAt = 7, voteCount = 3\<rparr>"
  let ?votes = "[\<lparr>encryptedValue = ''16'', timestamp = 8\<rparr>, \<lparr>encryptedValue = ''31'', timestamp = 9\<rparr>,
           \<lparr>encryptedValue = ''4'', timestamp = 10\<rparr>]"
  let ?votes' = "[\<lparr>encryptedValue = ''4'', timestamp = 8\<rparr>, \<lparr>encryptedValue = ''16'', timestamp = 9\<rparr>,
           \<lparr>encryptedValue = ''31'', timestamp = 10\<rparr>]"
  have s: "votingSessions ?st ''session_abcd'' = Some ?sess" by code_simp
  have s': "votingSessions ?st' ''session_abcd'' = Some ?sess" by code_simp
  have n: "BigInt (pk_n (publicKey ?sess)) = Some 15" by code_simp
  have g: "BigInt (pk_g (publicKey ?sess)) = Some 16" by code_simp
  have v: "encryptedVotes ?st ''session_abcd'' = Some ?votes" by code_simp
  have v': "encryptedVotes ?st' ''session_abcd'' = Some ?votes'" by code_simp
  have c: "map (\<lambda>v. BigInt (encryptedValue v)) ?votes = map Some [16, 31, 4]" by code_simp
  have c': "map (\<lambda>v. BigInt (encryptedValue v)) ?votes' = map Some [4, 16, 31]" by code_simp
  have r: "\<forall>c \<in> set [16, 31, 4 :: int]. 0 \<le> c \<and> c < 15 * 15" by simp
  have m: "mset [4, 16, 31 :: int] = mset [16, 31, 4]" by simp
  from compute_fold_order_independent[OF s n g v c r s' _ v' c' m] s v v' m
  show ?thesis by simp
qed

subsection \<open>The session snapshot\<close>

text \<open>
  C10 (as amended): for an existing session the snapshot handler returns, for each stored
  ballot, the first 50 characters of the stored string followed by three dots. A stored
  string of more than 50 characters is cut: the entry is not the full string followed by
  the three dots, and every string with the same first 50 characters gives the same
  entry. A stored string of at most 50 characters appears in full.
\<close>

theorem snapshot_abbreviates_ciphertexts:
  assumes "votingSessions st sid = Some sess" and "encryptedVotes st sid = Some votes"
  shows "(\<exists>r. fst (api_voting_session st sid) = Inr r \<and>
              map encrypted (info_votes r) = map (\<lambda>v. take 50 (encryptedValue v) @ ''...'') votes) \<and>
         (\<forall>v \<in> set votes. length (encryptedValue v) \<le> 50 \<longrightarrow>
              take 50 (encryptedValue v) @ ''...'' = encryptedValue v @ ''...'') \<and>
         (\<forall>v \<in> set votes. 50 < length (encryptedValue v) \<longrightarrow>
              take 50 (encryptedValue v) @ ''...'' \<noteq> encryptedValue v @ ''...'' \<and>
              (\<forall>s. take 50 s = take 50 (encryptedValue v) \<longrightarrow>
                   abbreviate s = take 50 (encryptedValue v) @ ''...''))"
  using assms by (auto simp: api_voting_session_def abbreviate_def o_def)

theorem snapshot_abbreviates_ciphertexts_witness:
  "votingSessions (run [Init (Inr toy_keys) ''ab'' ''cd'' 7,
      Submit ''session_abcd'' (JString ''123456789012345678901234567890123456789012345678901234567890'') 8])
      ''session_abcd'' =
     Some \<lparr>publicKey = \<lparr>pk_n = ''15'', pk_g = ''16''\<rparr>, createdAt = 7, voteCount = 1\<rparr> \<and>
   encryptedVotes (run [Init (Inr toy_keys) ''ab'' ''cd'' 7,
      Submit ''session_abcd'' (JString ''123456789012345678901234567890123456789012345678901234567890'') 8])
      ''session_abcd'' =
     Some [\<lparr>encryptedValue = ''123456789012345678901234567890123456789012345678901234567890'',
            timestamp = 8\<rparr>] \<and>
   (50::nat) < length ''123456789012345678901234567890123456789012345678901234567890'' \<and>
   take 50 ''123456789012345678901234567890123456789012345678901234567890'' @ ''...'' \<noteq>
     ''123456789012345678901234567890123456789012345678901234567890'' @ ''...'' \<and>
   (\<exists>r. fst (api_voting_session (run [Init (Inr toy_keys) ''ab'' ''cd'' 7,
      Submit ''session_abcd'' (JString ''123456789012345678901234567890123456789012345678901234567890'') 8])
      ''session_abcd'') = Inr r \<and>
      map encrypted (info_votes r) = [''12345678901234567890123456789012345678901234567890...''])"
proof -
  let ?c = "''123456789012345678901234567890123456789012345678901234567890''"
  let ?st = "run [Init (Inr toy_keys) ''ab'' ''cd'' 7, Submit ''session_abcd'' (JString ?c) 8]"
  have s: "votingSessions ?st ''session_abcd'' =
     Some \<lparr>publicKey = \<lparr>pk_n = ''15'', pk_g = ''16''\<rparr>, createdAt = 7, voteCount = 1\<rparr>"
    by code_simp
  have v: "encryptedVotes ?st ''session_abcd'' = Some [\<lparr>encryptedValue = ?c, timestamp = 8\<rparr>]"
    by code_simp
  have l: "(50::nat) < length ?c" by simp
  from snapshot_abbreviates_ciphertexts[OF s v] s v l show ?thesis
    by simp
qed

theorem snapshot_full_ciphertext_counterexample:
  "BigInt ''1'' = Some 1 \<and> valid_ciphertext (fst toy_keys) 1 \<and>
   decrypt 1 (snd toy_keys) (fst toy_keys) = Inr 0 \<and>
   fst (api_voting_session
          (run [Init (Inr toy_keys) ''ab'' ''cd'' 7, Submit ''session_abcd'' (JString ''1'') 8,
                Submit ''session_abcd'' (JString ''16'') 9])
          ''session_abcd'') =
     Inr \<lparr>info_sessionId = ''session_abcd'', info_voteCount = 2, info_createdAt = 7,
          info_publicKey = \<lparr>pk_n = ''15'', pk_g = ''16''\<rparr>,
          info_votes = [\<lparr>encrypted = ''1...'', snapshot_timestamp = 8\<rparr>,
                        \<lparr>encrypted = ''16...'', snapshot_timestamp = 9\<rparr>]\<rparr> \<and>
   ''1...'' = ''1'' @ ''...'' \<and> ''16...'' = ''16'' @ ''...''"
  by code_simp

section \<open>A voting round: the client, the backend and the cryptosystem\<close>

lemma generateSessionId_nonempty: "generateSessionId r1 r2 \<noteq> []"
  by (simp add: generateSessionId_def)

lemma initializeSession_fresh:
  assumes "key_publicKey priv = pub"
  shows "\<exists>this srv'.
           initializeSession new_client srv (Inr (pub, priv)) r1 r2 now =
             (Inr (generateSessionId r1 r2), this, srv') \<and>
           this_sessionId this = Some (generateSessionId r1 r2) \<and>
           this_paillierPublicKey this = Some pub \<and>
           this_paillierPrivateKey this = Some priv \<and>
           votingSessions srv' (generateSessionId r1 r2) =
             Some \<lparr>publicKey = \<lparr>pk_n = toString (key_n pub), pk_g = toString (key_g pub)\<rparr>,
                   createdAt = now, voteCount = 0\<rparr> \<and>
           encryptedVotes srv' (generateSessionId r1 r2) = Some []"
  using assms
  by (simp add: initializeSession_def api_voting_init_def Let_def BigInt_toString)

lemma castVotes_appends:
  assumes "this_sessionId this = Some sid" and "sid \<noteq> []"
    and "this_paillierPublicKey this = Some pk"
    and "votingSessions srv sid = Some sess"
    and "encryptedVotes srv sid = Some vs"
    and "\<forall>b \<in> set ballots. fst b = 0 \<or> fst b = 1"
  shows "\<exists>srv' sess'. castVotes this srv ballots = Inr srv' \<and>
           votingSessions srv' sid = Some sess' \<and> publicKey sess' = publicKey sess \<and>
           encryptedVotes srv' sid = Some (vs @ map (ballot_vote pk) ballots)"
  using assms(4-6)
proof (induction ballots arbitrary: srv sess vs)
  case Nil
  then show ?case by simp
next
  case (Cons b ballots)
  obtain m r t where b: "b = (m, r, t)" by (cases b)
  from Cons.prems(3) b have m: "m = 0 \<or> m = 1" by simp
  let ?srv1 = "snd (api_voting_submit srv sid (JString (toString (encrypt pk m r))) t)"
  have sub: "api_voting_submit srv sid (JString (toString (encrypt pk m r))) t =
         (Inr (voteCount sess + 1),
          srv\<lparr>encryptedVotes := (encryptedVotes srv)(sid \<mapsto> vs @ [ballot_vote pk b]),
              votingSessions := (votingSessions srv)(sid \<mapsto> sess\<lparr>voteCount := voteCount sess + 1\<rparr>)\<rparr>)"
    using submit_string[OF Cons.prems(1,2)] by (simp add: ballot_vote_def b)
  have s1: "votingSessions ?srv1 sid = Some (sess\<lparr>voteCount := voteCount sess + 1\<rparr>)"
    and v1: "encryptedVotes ?srv1 sid = Some (vs @ [ballot_vote pk b])"
    by (simp_all add: sub)
  have rest: "\<forall>b \<in> set ballots. fst b = 0 \<or> fst b = 1" using Cons.prems(3) by simp
  from Cons.IH[OF s1 v1 rest] obtain srv' sess' where
    "castVotes this ?srv1 ballots = Inr srv'" "votingSessions srv' sid = Some sess'"
    "publicKey sess' = publicKey sess"
    "encryptedVotes srv' sid = Some ((vs @ [ballot_vote pk b]) @ map (ballot_vote pk) ballots)"
    by auto
  moreover have "castVotes this srv (b # ballots) = castVotes this ?srv1 ballots"
    using assms(1-3) m by (auto simp: b castVote_def sub Let_def)
  ultimately show ?case by auto
qed

lemma encrypt_range:
  assumes "1 < key_n pk"
  shows "0 \<le> encrypt pk m r" and "encrypt pk m r < key_n pk * key_n pk"
proof -
  from assms have "0 < key_n pk * key_n pk" by simp
  then show "0 \<le> encrypt pk m r" and "encrypt pk m r < key_n pk * key_n pk"
    by (simp_all add: encrypt_def)
qed

lemma product_of_encryptions:
  fixes n :: int
  assumes "1 < n" and "\<forall>b \<in> set ballots. 0 \<le> fst b \<and> coprime (fst (snd b)) n"
  shows "\<exists>R. coprime R n \<and>
           prod_list (map (\<lambda>b. encrypt \<lparr>key_n = n, key_g = n + 1\<rparr> (fst b) (fst (snd b))) ballots) mod (n * n) =
             ((n + 1) ^ nat (sum_list (map fst ballots)) * R ^ nat n) mod (n * n)"
  using assms(2)
proof (induction ballots)
  case Nil
  show ?case by (intro exI[of _ 1]) simp
next
  case (Cons b ballots)
  let ?pk = "\<lparr>key_n = n, key_g = n + 1\<rparr>"
  let ?M = "sum_list (map fst ballots)"
  from Cons.prems have m0: "0 \<le> fst b" and r: "coprime (fst (snd b)) n"
    and rest: "\<forall>b \<in> set ballots. 0 \<le> fst b \<and> coprime (fst (snd b)) n" by simp_all
  from rest have M0: "0 \<le> ?M" by (intro sum_list_nonneg) auto
  from Cons.IH[OF rest] obtain R where R: "coprime R n"
    and ih: "prod_list (map (\<lambda>b. encrypt ?pk (fst b) (fst (snd b))) ballots) mod (n * n) =
             ((n + 1) ^ nat ?M * R ^ nat n) mod (n * n)" by blast
  have e: "encrypt ?pk (fst b) (fst (snd b)) =
           ((n + 1) ^ nat (fst b) * fst (snd b) ^ nat n) mod (n * n)"
    using m0 assms(1) by (simp add: encrypt_eq)
  have "prod_list (map (\<lambda>b. encrypt ?pk (fst b) (fst (snd b))) (b # ballots)) mod (n * n) =
        (encrypt ?pk (fst b) (fst (snd b)) *
          (prod_list (map (\<lambda>b. encrypt ?pk (fst b) (fst (snd b))) ballots) mod (n * n))) mod (n * n)"
    by (simp add: mod_mult_right_eq)
  also have "\<dots> = (((n + 1) ^ nat (fst b) * fst (snd b) ^ nat n) *
                    ((n + 1) ^ nat ?M * R ^ nat n)) mod (n * n)"
    unfolding ih e by (simp add: mod_mult_eq)
  also have "((n + 1) ^ nat (fst b) * fst (snd b) ^ nat n) * ((n + 1) ^ nat ?M * R ^ nat n) =
             (n + 1) ^ nat (sum_list (map fst (b # ballots))) * (fst (snd b) * R) ^ nat n"
    using m0 M0 by (simp add: nat_add_distrib power_add power_mult_distrib)
  finally have "prod_list (map (\<lambda>b. encrypt ?pk (fst b) (fst (snd b))) (b # ballots)) mod (n * n) =
      ((n + 1) ^ nat (sum_list (map fst (b # ballots))) * (fst (snd b) * R) ^ nat n) mod (n * n)" .
  moreover from r R have "coprime (fst (snd b) * R) n" by simp
  ultimately show ?case by blast
qed

lemma voting_round_decrypts_sum:
  assumes acc: "accepted_primes p q"
    and keys: "generate_key_pair p q = Inr (pub, priv)"
    and sid: "this_sessionId this = Some sid" "sid \<noteq> []"
    and pk: "this_paillierPublicKey this = Some pub"
    and sk: "this_paillierPrivateKey this = Some priv"
    and sess: "votingSessions srv sid = Some sess"
      "publicKey sess = \<lparr>pk_n = toString (key_n pub), pk_g = toString (key_g pub)\<rparr>"
    and votes: "encryptedVotes srv sid = Some (map (ballot_vote pub) ballots)"
    and ne: "ballots \<noteq> []"
    and ballots: "\<forall>b \<in> set ballots. 0 \<le> fst b \<and> fresh_randomness pub (fst (snd b))"
  shows "\<exists>agg. fst (computeResults this srv) =
                   Inr \<lparr>encryptedResult = toString agg, compute_voteCount = length ballots\<rparr> \<and>
               valid_ciphertext pub agg \<and>
               decryptResults this (toString agg) =
                   Inr (Number (sum_list (map fst ballots) mod (p * q)))"
proof -
  from generate_key_pair_succeeds[OF acc] keys obtain mu
    where pub: "pub = \<lparr>key_n = p * q, key_g = p * q + 1\<rparr>"
      and priv: "priv = \<lparr>key_lambda = lcm (p - 1) (q - 1), key_mu = mu, key_publicKey = pub\<rparr>"
    by auto
  note f = accepted_primes_facts[OF acc]
  define n where "n = p * q"
  have n1: "1 < n" unfolding n_def by (rule f(3))
  define cs where "cs = map (\<lambda>b. encrypt pub (fst b) (fst (snd b))) ballots"
  have parse: "map (\<lambda>v. BigInt (encryptedValue v)) (map (ballot_vote pub) ballots) = map Some cs"
    by (simp add: cs_def ballot_vote_def BigInt_toString split_beta)
  have range: "\<forall>c \<in> set cs. 0 \<le> c \<and> c < n * n"
    using encrypt_range[of pub] n1 by (auto simp: cs_def pub n_def)
  have cne: "cs \<noteq> []" using ne by (simp add: cs_def)
  have comp: "fst (api_voting_compute srv sid) =
      Inr \<lparr>encryptedResult = toString (prod_list cs mod (n * n)), compute_voteCount = length cs\<rparr>"
    using sess(1) _ _ votes parse range cne
    by (rule compute_product) (simp_all add: sess(2) BigInt_toString pub n_def)
  have co: "\<forall>b \<in> set ballots. 0 \<le> fst b \<and> coprime (fst (snd b)) n"
    using ballots by (auto simp: fresh_randomness_def pub n_def coprime_iff_gcd_eq_1)
  from product_of_encryptions[OF n1 co] obtain R where R: "coprime R n"
    and form: "prod_list cs mod (n * n) =
       ((n + 1) ^ nat (sum_list (map fst ballots)) * R ^ nat n) mod (n * n)"
    by (auto simp: cs_def pub n_def)
  define agg where "agg = prod_list cs mod (n * n)"
  have M0: "0 \<le> sum_list (map fst ballots)" using ballots by (intro sum_list_nonneg) auto
  have dec: "decrypt agg priv pub = Inr (sum_list (map fst ballots) mod (p * q))"
    using decrypt_unit_form[OF acc keys R[unfolded n_def] form[unfolded n_def, folded agg_def[unfolded n_def]]] M0
    by simp
  have valid: "valid_ciphertext pub agg"
    unfolding agg_def form pub n_def[symmetric] using n1 R by (rule unit_form_valid)
  obtain res srv' where c: "api_voting_compute srv sid = (res, srv')"
    by (cases "api_voting_compute srv sid")
  with comp have "res = Inr \<lparr>encryptedResult = toString agg, compute_voteCount = length ballots\<rparr>"
    by (simp add: agg_def cs_def)
  with c sid have "fst (computeResults this srv) =
          Inr \<lparr>encryptedResult = toString agg, compute_voteCount = length ballots\<rparr>"
    by (simp add: computeResults_def)
  moreover have "decryptResults this (toString agg) =
                   Inr (Number (sum_list (map fst ballots) mod (p * q)))"
    using sk dec by (simp add: decryptResults_def BigInt_toString priv)
  ultimately show ?thesis using valid by blast
qed

subsection \<open>Decrypting an encrypted vote\<close>

text \<open>
  C2: for every pair of primes that key generation accepts, generation returns a key
  pair, and for each vote \<open>m\<close> in \<open>{0, 1}\<close> and each admissible randomness the decryption of
  the encryption of \<open>m\<close> with the matching private key is exactly \<open>m\<close>; so
  \<^verbatim>\<open>decryptResults\<close>, given the string that \<^verbatim>\<open>castVote\<close> sends, returns \<open>m\<close>.
\<close>

theorem decrypt_after_encrypt_returns_vote:
  assumes "accepted_primes p q" and "m = 0 \<or> m = 1"
  shows "\<exists>pub priv. generate_key_pair p q = Inr (pub, priv) \<and>
           (\<forall>r. fresh_randomness pub r \<longrightarrow>
                decrypt (encrypt pub m r) priv pub = Inr m \<and>
                (\<forall>this. this_paillierPrivateKey this = Some priv \<longrightarrow>
                     decryptResults this (toString (encrypt pub m r)) = Inr (Exactly m)))"
proof -
  from generate_key_pair_succeeds[OF assms(1)] obtain pub priv
    where keys: "generate_key_pair p q = Inr (pub, priv)" and pk: "key_publicKey priv = pub"
    by auto
  note f = accepted_primes_facts[OF assms(1)]
  from assms(2) f(3) have m: "0 \<le> m" "m mod (p * q) = m" "Number m = Exactly m"
    by (auto simp: Number_def)
  have "decrypt (encrypt pub m r) priv pub = Inr m" if "fresh_randomness pub r" for r
    using decrypt_encrypt[OF assms(1) keys that m(1)] m(2) by simp
  then show ?thesis
    using keys pk m(3) by (auto simp: decryptResults_def BigInt_toString)
qed


theorem decrypt_after_encrypt_returns_vote_witness:
  "accepted_primes 3 5 \<and> generate_key_pair 3 5 = Inr toy_keys \<and>
   fresh_randomness (fst toy_keys) 2 \<and> encrypt (fst toy_keys) 1 2 = 38 \<and>
   decrypt (encrypt (fst toy_keys) 1 2) (snd toy_keys) (fst toy_keys) = Inr 1"
proof -
  have a: "accepted_primes 3 5" by code_simp
  have k: "generate_key_pair 3 5 = Inr toy_keys" by code_simp
  have r: "fresh_randomness (fst toy_keys) 2" by code_simp
  have e: "encrypt (fst toy_keys) 1 2 = 38" by code_simp
  from decrypt_after_encrypt_returns_vote[OF a, of 1] obtain pub priv
    where g: "generate_key_pair 3 5 = Inr (pub, priv)"
      and d: "\<forall>r. fresh_randomness pub r \<longrightarrow> decrypt (encrypt pub 1 r) priv pub = Inr 1"
    by auto
  from g k have tk: "toy_keys = (pub, priv)" by simp
  have "pub = fst toy_keys" "priv = snd toy_keys" unfolding tk by simp_all
  with d r have "decrypt (encrypt (fst toy_keys) 1 2) (snd toy_keys) (fst toy_keys) = Inr 1"
    by simp
  with a k r e show ?thesis by simp
qed

subsection \<open>The tally of a voting round\<close>

lemma sum_of_votes_bounds:
  assumes "\<forall>b \<in> set ballots. fst b = 0 \<or> fst b = (1::int)"
  shows "0 \<le> sum_list (map fst ballots)" and "sum_list (map fst ballots) \<le> int (length ballots)"
  using assms by (induction ballots) auto

text \<open>
  C1: after a session has been initialised with a generated key pair, casting any
  non-empty sequence of votes from \<open>{0, 1}\<close>, computing the results on the backend and
  decrypting the returned aggregate with the matching private key yields the sum of the
  votes modulo \<open>n\<close>; when there are fewer than \<open>n\<close> ballots (and no more than \<open>2\<^sup>5\<^sup>3\<close>, so that
  \<^verbatim>\<open>Number\<close> is exact) this is the sum itself. With the 2048-bit modulus that the init
  handler asks for, both bounds lie far beyond the length of any JavaScript array.
\<close>

theorem voting_round_yields_sum:
  assumes "accepted_primes p q"
    and "generate_key_pair p q = Inr keys"
    and "initializeSession new_client srv0 (Inr keys) r1 r2 now = (res, this, srv)"
    and "ballots \<noteq> []"
    and "\<forall>b \<in> set ballots. (fst b = 0 \<or> fst b = 1) \<and> fresh_randomness (fst keys) (fst (snd b))"
  shows "voting_round this srv ballots = Inr (Number (sum_list (map fst ballots) mod (p * q))) \<and>
         (int (length ballots) < p * q \<longrightarrow> length ballots \<le> 2 ^ 53 \<longrightarrow>
            voting_round this srv ballots = Inr (Exactly (sum_list (map fst ballots))))"
proof -
  obtain pub priv where kp: "keys = (pub, priv)" by (cases keys)
  from generate_key_pair_succeeds[OF assms(1)] assms(2) kp
  have pk: "key_publicKey priv = pub" by auto
  let ?sid = "generateSessionId r1 r2"
  from initializeSession_fresh[OF pk, of srv0 r1 r2 now] assms(3) kp
  have cl: "this_sessionId this = Some ?sid" "this_paillierPublicKey this = Some pub"
      "this_paillierPrivateKey this = Some priv"
    and sess: "votingSessions srv ?sid =
             Some \<lparr>publicKey = \<lparr>pk_n = toString (key_n pub), pk_g = toString (key_g pub)\<rparr>,
                   createdAt = now, voteCount = 0\<rparr>"
    and votes: "encryptedVotes srv ?sid = Some []"
    by auto
  have bits: "\<forall>b \<in> set ballots. fst b = 0 \<or> fst b = 1" using assms(5) by simp
  from castVotes_appends[OF cl(1) generateSessionId_nonempty cl(2) sess votes bits]
  obtain srv' sess' where cast: "castVotes this srv ballots = Inr srv'"
    and sess': "votingSessions srv' ?sid = Some sess'"
      "publicKey sess' = \<lparr>pk_n = toString (key_n pub), pk_g = toString (key_g pub)\<rparr>"
    and votes': "encryptedVotes srv' ?sid = Some (map (ballot_vote pub) ballots)"
    by auto
  have honest: "\<forall>b \<in> set ballots. 0 \<le> fst b \<and> fresh_randomness pub (fst (snd b))"
    using assms(5) kp by auto
  from voting_round_decrypts_sum[OF assms(1) assms(2)[unfolded kp] cl(1)
      generateSessionId_nonempty cl(2,3) sess' votes' assms(4) honest]
  obtain agg where comp: "fst (computeResults this srv') =
                   Inr \<lparr>encryptedResult = toString agg, compute_voteCount = length ballots\<rparr>"
    and dec: "decryptResults this (toString agg) =
                   Inr (Number (sum_list (map fst ballots) mod (p * q)))"
    by blast
  obtain cr srv'' where c: "computeResults this srv' = (cr, srv'')"
    by (cases "computeResults this srv'")
  with comp have "cr = Inr \<lparr>encryptedResult = toString agg, compute_voteCount = length ballots\<rparr>"
    by simp
  with c cast dec have round: "voting_round this srv ballots =
      Inr (Number (sum_list (map fst ballots) mod (p * q)))"
    by (simp add: voting_round_def)
  note b = sum_of_votes_bounds[OF bits]
  have "Number (sum_list (map fst ballots) mod (p * q)) = Exactly (sum_list (map fst ballots))"
    if "int (length ballots) < p * q" and "length ballots \<le> 2 ^ 53"
  proof -
    from that(1) b have "sum_list (map fst ballots) mod (p * q) = sum_list (map fst ballots)"
      by simp
    moreover from that(2) have "int (length ballots) \<le> 2 ^ 53"
      by (metis of_nat_le_iff of_nat_numeral of_nat_power)
    with b have "\<bar>sum_list (map fst ballots)\<bar> \<le> 2 ^ 53" by simp
    ultimately show ?thesis by (simp add: Number_def)
  qed
  with round show ?thesis by simp
qed

theorem voting_round_yields_sum_witness:
  "accepted_primes 3 5 \<and> generate_key_pair 3 5 = Inr toy_keys \<and>
   fresh_randomness (fst toy_keys) 2 \<and> fresh_randomness (fst toy_keys) 4 \<and>
   fresh_randomness (fst toy_keys) 7 \<and> fresh_randomness (fst toy_keys) 11 \<and>
   (case initializeSession new_client initial_server (Inr toy_keys) ''ab'' ''cd'' 7 of
      (res, this, srv) \<Rightarrow> voting_round this srv [(1, 2, 8), (1, 4, 9), (0, 7, 10), (1, 11, 11)]) =
     Inr (Exactly 3)"
proof -
  let ?ballots = "[(1, 2, 8), (1, 4, 9), (0, 7, 10), (1, 11, 11)] :: (int \<times> int \<times> nat) list"
  obtain res this srv where i:
    "initializeSession new_client initial_server (Inr toy_keys) ''ab'' ''cd'' 7 = (res, this, srv)"
    by (cases "initializeSession new_client initial_server (Inr toy_keys) ''ab'' ''cd'' 7")
  have a: "accepted_primes 3 5" by code_simp
  have k: "generate_key_pair 3 5 = Inr toy_keys" by code_simp
  have r: "fresh_randomness (fst toy_keys) 2" "fresh_randomness (fst toy_keys) 4"
    "fresh_randomness (fst toy_keys) 7" "fresh_randomness (fst toy_keys) 11" by code_simp+
  have h: "\<forall>b \<in> set ?ballots. (fst b = 0 \<or> fst b = 1) \<and> fresh_randomness (fst toy_keys) (fst (snd b))"
    using r by simp
  from voting_round_yields_sum[OF a k i _ h]
  have "voting_round this srv ?ballots = Inr (Exactly 3)" by (simp add: Number_def)
  with i a k r show ?thesis by simp
qed

subsection \<open>A corrupted ciphertext\<close>

















end
